theory Spec2Isabelle
  imports Main "HOL-Library.Word"
begin

text \<open>
  A shallow embedding of parts of the StarRocks backend: the per-segment state of a
  column-mode partial update and its key batches
  (\<^verbatim>\<open>be/src/storage/rowset_column_update_state.h\<close>), the Iceberg position-delete builders
  (\<^verbatim>\<open>be/src/exec/iceberg/iceberg_delete_builder.cpp\<close>) and the table function
  \<^verbatim>\<open>json_each\<close> (\<^verbatim>\<open>be/src/exprs/table_function/json_each.cpp\<close>). The header only declares
  \<^verbatim>\<open>load\<close> and the private steps of \<^verbatim>\<open>RowsetColumnUpdateState\<close>; where a property is about
  their bodies, these are modelled from the specification and marked as such.
  All definitions come first, then the lemmas and theorems about them.
\<close>

section \<open>Machine integers\<close>

text \<open>
  The C++ types \<^verbatim>\<open>uint64_t\<close> and \<^verbatim>\<open>uint32_t\<close> are words of that width:
  addition wraps around, \<open>unat\<close> reads the value, \<open><\<close> is the unsigned order.
\<close>

type_synonym uint64_t = "64 word"
type_synonym uint32_t = "32 word"

definition UINT64_MAX :: uint64_t where
  "UINT64_MAX = 18446744073709551615"

section \<open>Per-segment partial update state (\<^verbatim>\<open>rowset_column_update_state.h\<close>)\<close>

text \<open>
  \<^verbatim>\<open>struct ColumnPartialUpdateState\<close>. The type \<^verbatim>\<open>EditVersion\<close> is declared in a header that
  is not part of the excerpt, so the version is a type parameter \<open>'v\<close>. The ordered
  \<^verbatim>\<open>std::map<uint64_t, uint32_t>\<close> is a partial function: its size is \<open>card (dom m)\<close>, its
  values are \<open>ran m\<close>.
\<close>

record 'v ColumnPartialUpdateState =
  inited :: bool
  src_rss_rowids :: "uint64_t list"
  read_version :: 'v
  rss_rowid_to_update_rowid :: "uint64_t \<rightharpoonup> uint32_t"
  insert_rowids :: "uint32_t list"

text \<open>
  The body of the \<^verbatim>\<open>for\<close> loop of \<^verbatim>\<open>build_rss_rowid_to_update_rowid\<close> for one value of
  the counter \<^verbatim>\<open>upt_row_id\<close>. The loop guard keeps the index inside the vector.
\<close>

definition build_body :: "uint32_t \<Rightarrow> 'v ColumnPartialUpdateState \<Rightarrow> 'v ColumnPartialUpdateState" where
  "build_body upt_row_id st =
     (let each_rss_rowid = src_rss_rowids st ! unat upt_row_id in
      if each_rss_rowid < UINT64_MAX
      then st\<lparr>rss_rowid_to_update_rowid := (rss_rowid_to_update_rowid st)(each_rss_rowid \<mapsto> upt_row_id)\<rparr>
      else st\<lparr>insert_rowids := insert_rowids st @ [upt_row_id]\<rparr>)"

text \<open>
  The loop itself. The counter is a \<^verbatim>\<open>uint32_t\<close> compared with a \<^verbatim>\<open>size_t\<close>: on a vector
  of \<open>2 ^ 32\<close> or more entries the increment wraps to \<open>0\<close> and the loop never leaves, so
  the loop is a partial function and \<open>None\<close> stands for not returning.
\<close>

partial_function (option) build_loop ::
  "uint32_t \<Rightarrow> 'v ColumnPartialUpdateState \<Rightarrow> 'v ColumnPartialUpdateState option" where
  "build_loop upt_row_id st =
     (if unat upt_row_id < length (src_rss_rowids st)
      then build_loop (upt_row_id + 1) (build_body upt_row_id st)
      else Some st)"

text \<open>The two \<^verbatim>\<open>clear()\<close> calls, then the loop from \<open>0\<close>.\<close>

definition build_rss_rowid_to_update_rowid ::
  "'v ColumnPartialUpdateState \<Rightarrow> 'v ColumnPartialUpdateState option" where
  "build_rss_rowid_to_update_rowid st =
     build_loop 0 (st\<lparr>rss_rowid_to_update_rowid := Map.empty, insert_rowids := []\<rparr>)"

text \<open>
  Two notions for the proofs, not code of the repository: the positions below \<open>m\<close> at
  which a source row id occurs, and the state the loop is shown to return.
\<close>

definition found_idx :: "uint64_t list \<Rightarrow> nat \<Rightarrow> uint64_t \<Rightarrow> nat set" where
  "found_idx src m k = {l. l < m \<and> src ! l = k}"

definition build_result :: "'v ColumnPartialUpdateState \<Rightarrow> 'v ColumnPartialUpdateState" where
  "build_result st =
     st\<lparr>rss_rowid_to_update_rowid :=
           (\<lambda>k. if k < UINT64_MAX \<and> found_idx (src_rss_rowids st) (length (src_rss_rowids st)) k \<noteq> {}
                 then Some (of_nat (Max (found_idx (src_rss_rowids st) (length (src_rss_rowids st)) k)))
                 else None),
         insert_rowids :=
           map of_nat (filter (\<lambda>l. src_rss_rowids st ! l = UINT64_MAX) [0 ..< length (src_rss_rowids st)])\<rparr>"


section \<open>Iceberg position-delete builders (\<^verbatim>\<open>iceberg_delete_builder.cpp\<close>)\<close>

text \<open>
  \<^verbatim>\<open>Status\<close> is declared outside the excerpt. The builders only ask whether a status is
  OK and whether it is the end-of-file status, so a status is OK, end of file, an internal
  error, or any other error with its code; each error carries its message.
\<close>

type_synonym int64_t = "64 word"

datatype Status = OK | EndOfFile string | InternalError string | OtherError nat string

fun ok :: "Status \<Rightarrow> bool" where
  "ok OK = True"
| "ok _ = False"

fun is_end_of_file :: "Status \<Rightarrow> bool" where
  "is_end_of_file (EndOfFile _) = True"
| "is_end_of_file _ = False"

text \<open>
  An \<^verbatim>\<open>arrow::RecordBatch\<close> of a position-delete file, as the Parquet builder reads it:
  the row count, column 0 as a string array and column 1 as an array of 64-bit integers.
\<close>

record RecordBatch =
  num_rows :: nat
  file_path_array :: "string list"
  pos_array :: "int64_t list"

text \<open>
  \<^verbatim>\<open>IcebergDeleteFileIterator\<close> is not in the excerpt. What it answers is a parameter:
  the status of \<^verbatim>\<open>init\<close>, the status of the \<open>k\<close>-th call of \<^verbatim>\<open>has_next\<close> and the batch
  that \<^verbatim>\<open>next\<close> hands out after it (calls counted from \<open>0\<close>).
\<close>

record IcebergDeleteFileIterator =
  init_status :: Status
  has_next :: "nat \<Rightarrow> Status"
  next_batch :: "nat \<Rightarrow> RecordBatch"

text \<open>The inner \<^verbatim>\<open>for\<close> loop over the rows of one batch.\<close>

definition parquet_rows :: "string \<Rightarrow> RecordBatch \<Rightarrow> int64_t set \<Rightarrow> int64_t set" where
  "parquet_rows datafile_path batch need_skip_rowids =
     fold (\<lambda>row acc. if file_path_array batch ! row = datafile_path
                      then insert (pos_array batch ! row) acc else acc)
          [0 ..< num_rows batch] need_skip_rowids"

text \<open>
  The \<^verbatim>\<open>while (true)\<close> loop of \<^verbatim>\<open>ParquetPositionDeleteBuilder::build\<close>; \<open>k\<close> counts the
  calls of \<^verbatim>\<open>has_next\<close>. It leaves with the first status that is not OK; an iterator that
  answers OK for ever keeps it running, which is the value \<open>None\<close>.
\<close>

partial_function (option) parquet_loop ::
  "string \<Rightarrow> IcebergDeleteFileIterator \<Rightarrow> nat \<Rightarrow> int64_t set \<Rightarrow> (Status \<times> int64_t set) option" where
  "parquet_loop datafile_path iter k need_skip_rowids =
     (let status = has_next iter k in
      if \<not> ok status then Some (status, need_skip_rowids)
      else parquet_loop datafile_path iter (k + 1)
             (parquet_rows datafile_path (next_batch iter k) need_skip_rowids))"

text \<open>
  \<^verbatim>\<open>ParquetPositionDeleteBuilder::build\<close>: the returned status and the set behind the
  pointer \<^verbatim>\<open>need_skip_rowids\<close> afterwards. The first argument is the member
  \<^verbatim>\<open>_datafile_path\<close>; the time zone, the path and the length of the delete file only reach
  the iterator.
\<close>

definition ParquetPositionDeleteBuilder_build ::
  "string \<Rightarrow> IcebergDeleteFileIterator \<Rightarrow> int64_t set \<Rightarrow> (Status \<times> int64_t set) option" where
  "ParquetPositionDeleteBuilder_build datafile_path iter need_skip_rowids =
     (if \<not> ok (init_status iter) then Some (init_status iter, need_skip_rowids)
      else case parquet_loop datafile_path iter 0 need_skip_rowids of
             None \<Rightarrow> None
           | Some (status, rowids) \<Rightarrow>
               if \<not> is_end_of_file status then Some (status, rowids)
               else Some (OK, rowids))"

text \<open>The two slot ids of a position-delete file.\<close>

definition INT32_MAX :: int where
  "INT32_MAX = 2147483647"

definition k_delete_file_path_id :: int where
  "k_delete_file_path_id = INT32_MAX - 101"

definition k_delete_file_pos_id :: int where
  "k_delete_file_pos_id = INT32_MAX - 102"

text \<open>
  A \<^verbatim>\<open>Chunk\<close> as the ORC builder reads it: the row count, the slot ids that
  \<^verbatim>\<open>get_slot_id_to_index_map\<close> knows, the column of slot \<^verbatim>\<open>k_delete_file_path.id\<close> as a
  binary column and the column of slot \<^verbatim>\<open>k_delete_file_pos.id\<close> as the data of an
  \<^verbatim>\<open>Int64Column\<close>.
\<close>

record Chunk =
  chunk_num_rows :: nat
  slot_ids :: "int set"
  file_path_col :: "string list"
  position_col :: "int64_t list"

text \<open>
  What the file system, the ORC library and \<^verbatim>\<open>OrcChunkReader\<close> answer, all outside the
  excerpt: the status of \<^verbatim>\<open>new_random_access_file\<close>, the message of the exception of
  \<^verbatim>\<open>orc::createReader\<close> if it throws, the statuses of \<^verbatim>\<open>set_timezone\<close> and \<^verbatim>\<open>init\<close>, the
  status of the \<open>k\<close>-th \<^verbatim>\<open>read_next\<close> and the \<^verbatim>\<open>StatusOr<ChunkPtr>\<close> of the \<^verbatim>\<open>get_chunk\<close>
  after it (\<open>Inl\<close> a status that is not OK, \<open>Inr\<close> the chunk).
\<close>

record OrcEnvironment =
  new_random_access_file :: Status
  create_reader_throws :: "string option"
  set_timezone :: Status
  reader_init :: Status
  read_next :: "nat \<Rightarrow> Status"
  get_chunk :: "nat \<Rightarrow> Status + Chunk"

text \<open>
  The inner \<^verbatim>\<open>for\<close> loop over the rows of one chunk. Its counter is an \<^verbatim>\<open>int\<close>; the reader
  is created with a batch size of 4096 rows, far below the range of \<^verbatim>\<open>int\<close>.
\<close>

definition orc_rows :: "string \<Rightarrow> Chunk \<Rightarrow> int64_t set \<Rightarrow> int64_t set" where
  "orc_rows datafile_path chunk need_skip_rowids =
     fold (\<lambda>row acc. if file_path_col chunk ! row \<noteq> datafile_path
                      then acc else insert (position_col chunk ! row) acc)
          [0 ..< chunk_num_rows chunk] need_skip_rowids"

definition schema_error :: Status where
  "schema_error =
     InternalError (''delete file schema doesn'' @ [CHR 0x27] @ ''t meet requirement, need: [file_path, pos]'')"

text \<open>The \<^verbatim>\<open>while (true)\<close> loop of \<^verbatim>\<open>ORCPositionDeleteBuilder::build\<close>.\<close>

partial_function (option) orc_loop ::
  "string \<Rightarrow> OrcEnvironment \<Rightarrow> nat \<Rightarrow> int64_t set \<Rightarrow> (Status \<times> int64_t set) option" where
  "orc_loop datafile_path env k need_skip_rowids =
     (let s = read_next env k in
      if is_end_of_file s then Some (OK, need_skip_rowids)
      else if \<not> ok s then Some (s, need_skip_rowids)
      else case get_chunk env k of
             Inl status \<Rightarrow> Some (status, need_skip_rowids)
           | Inr chunk \<Rightarrow>
               if k_delete_file_path_id \<notin> slot_ids chunk \<or> k_delete_file_pos_id \<notin> slot_ids chunk
               then Some (schema_error, need_skip_rowids)
               else orc_loop datafile_path env (k + 1)
                      (orc_rows datafile_path chunk need_skip_rowids))"

text \<open>\<^verbatim>\<open>ORCPositionDeleteBuilder::build\<close>, with the four steps that precede the loop.\<close>

definition ORCPositionDeleteBuilder_build ::
  "string \<Rightarrow> OrcEnvironment \<Rightarrow> int64_t set \<Rightarrow> (Status \<times> int64_t set) option" where
  "ORCPositionDeleteBuilder_build datafile_path env need_skip_rowids =
     (if \<not> ok (new_random_access_file env)
      then Some (new_random_access_file env, need_skip_rowids)
      else case create_reader_throws env of
             Some what \<Rightarrow>
               Some (InternalError
                       (''ORCPositionDeleteBuilder::build create orc::Reader failed. reason = '' @ what),
                     need_skip_rowids)
           | None \<Rightarrow>
               if \<not> ok (set_timezone env) then Some (set_timezone env, need_skip_rowids)
               else if \<not> ok (reader_init env) then Some (reader_init env, need_skip_rowids)
               else orc_loop datafile_path env 0 need_skip_rowids)"

text \<open>
  For stating what a build adds: the positions of the rows of a batch or chunk that refer
  to the data file, and a reader that answers from a finite list and then for ever with
  one last answer.
\<close>

definition batch_positions :: "string \<Rightarrow> RecordBatch \<Rightarrow> int64_t set" where
  "batch_positions datafile_path batch =
     {pos_array batch ! row | row. row < num_rows batch \<and> file_path_array batch ! row = datafile_path}"

definition chunk_positions :: "string \<Rightarrow> Chunk \<Rightarrow> int64_t set" where
  "chunk_positions datafile_path chunk =
     {position_col chunk ! row | row. row < chunk_num_rows chunk \<and> file_path_col chunk ! row = datafile_path}"

definition chunk_of :: "Status + Chunk \<Rightarrow> Chunk" where
  "chunk_of r = (case r of Inr chunk \<Rightarrow> chunk | Inl _ \<Rightarrow> \<lparr>chunk_num_rows = 0, slot_ids = {}, file_path_col = [], position_col = []\<rparr>)"

definition chunk_read :: "OrcEnvironment \<Rightarrow> nat \<Rightarrow> bool" where
  "chunk_read env k \<longleftrightarrow>
     ok (read_next env k) \<and>
     (case get_chunk env k of
        Inl _ \<Rightarrow> False
      | Inr chunk \<Rightarrow> k_delete_file_path_id \<in> slot_ids chunk \<and> k_delete_file_pos_id \<in> slot_ids chunk)"

definition replay :: "'a list \<Rightarrow> 'a \<Rightarrow> nat \<Rightarrow> 'a" where
  "replay answers final k = (if k < length answers then answers ! k else final)"

definition orc_exit_status :: "OrcEnvironment \<Rightarrow> nat \<Rightarrow> Status" where
  "orc_exit_status env k =
     (if is_end_of_file (read_next env k) then OK
      else if \<not> ok (read_next env k) then read_next env k
      else case get_chunk env k of Inl status \<Rightarrow> status | Inr _ \<Rightarrow> schema_error)"

definition orc_setup_ok :: "OrcEnvironment \<Rightarrow> bool" where
  "orc_setup_ok env \<longleftrightarrow>
     ok (new_random_access_file env) \<and> create_reader_throws env = None \<and>
     ok (set_timezone env) \<and> ok (reader_init env)"

text \<open>
  Example inputs: an iterator that hands out two batches and then answers end of file,
  and an ORC environment whose reader reads one chunk and then fails; the \<^verbatim>\<open>get_chunk\<close>
  after that chunk would answer end of file.
\<close>

definition example_iterator :: IcebergDeleteFileIterator where
  "example_iterator =
     \<lparr>init_status = OK, has_next = replay [OK, OK] (EndOfFile ''eof''),
      next_batch = replay
        [\<lparr>num_rows = 2, file_path_array = [''a.parquet'', ''b.parquet''], pos_array = [3, 9]\<rparr>,
         \<lparr>num_rows = 1, file_path_array = [''a.parquet''], pos_array = [5]\<rparr>]
        \<lparr>num_rows = 0, file_path_array = [], pos_array = []\<rparr>\<rparr>"

definition example_environment :: OrcEnvironment where
  "example_environment =
     \<lparr>new_random_access_file = OK, create_reader_throws = None, set_timezone = OK, reader_init = OK,
      read_next = replay [OK] (OtherError 5 ''read failed''),
      get_chunk = replay
        [Inr \<lparr>chunk_num_rows = 2, slot_ids = {k_delete_file_path_id, k_delete_file_pos_id},
              file_path_col = [''b.orc'', ''a.orc''], position_col = [4, 7]\<rparr>]
        (Inl (EndOfFile ''chunk eof''))\<rparr>"

section \<open>The table function \<^verbatim>\<open>json_each\<close> (\<^verbatim>\<open>json_each.cpp\<close>)\<close>

text \<open>
  A JSON value as \<^verbatim>\<open>vpack::Slice\<close> shows it to \<^verbatim>\<open>JsonEach::process\<close>: an object with its
  members in iteration order, an array, or anything else.
\<close>

datatype JsonValue =
    JsonObject "(string \<times> JsonValue) list"
  | JsonArray "JsonValue list"
  | JsonString string
  | JsonNumber int
  | JsonBool bool
  | JsonNull

text \<open>\<^verbatim>\<open>std::to_string\<close> on an \<^verbatim>\<open>int\<close>: the decimal digits, after a minus sign if negative.\<close>

fun decimal :: "nat \<Rightarrow> string" where
  "decimal n = (if n < 10 then [''0123456789'' ! n]
                else decimal (n div 10) @ [''0123456789'' ! (n mod 10)])"

definition to_string :: "int \<Rightarrow> string" where
  "to_string i = (if i < 0 then CHR ''-'' # decimal (nat (- i)) else decimal (nat i))"

text \<open>
  The local variables that the loops of \<^verbatim>\<open>process\<close> update. The counter \<^verbatim>\<open>offset\<close> is an
  \<^verbatim>\<open>int\<close>, kept here as its 32 bits; \<^verbatim>\<open>UInt32Column::append\<close> stores these bits.
\<close>

record process_vars =
  key_column_ptr :: "string list"
  value_column_ptr :: "JsonValue list"
  offset_column :: "uint32_t list"
  offset :: "32 word"

text \<open>The loop over \<^verbatim>\<open>vpack::ObjectIterator\<close>.\<close>

fun object_loop :: "(string \<times> JsonValue) list \<Rightarrow> process_vars \<Rightarrow> process_vars" where
  "object_loop [] v = v"
| "object_loop ((key, val) # rest) v =
     object_loop rest
       (v\<lparr>key_column_ptr := key_column_ptr v @ [key],
          value_column_ptr := value_column_ptr v @ [val],
          offset := offset v + 1\<rparr>)"

text \<open>The loop over \<^verbatim>\<open>vpack::ArrayIterator\<close>, with its index \<^verbatim>\<open>arr_idx\<close>.\<close>

fun array_loop :: "JsonValue list \<Rightarrow> int \<Rightarrow> process_vars \<Rightarrow> process_vars" where
  "array_loop [] arr_idx v = v"
| "array_loop (val # rest) arr_idx v =
     array_loop rest (arr_idx + 1)
       (v\<lparr>key_column_ptr := key_column_ptr v @ [to_string arr_idx],
          value_column_ptr := value_column_ptr v @ [val],
          offset := offset v + 1\<rparr>)"

text \<open>The body of the loop over the input rows.\<close>

definition process_row :: "JsonValue \<Rightarrow> process_vars \<Rightarrow> process_vars" where
  "process_row json v =
     (let v' = (case json of
                  JsonObject members \<Rightarrow> object_loop members v
                | JsonArray elements \<Rightarrow> array_loop elements 0 v
                | _ \<Rightarrow> v)
      in v'\<lparr>offset_column := offset_column v' @ [offset v']\<rparr>)"

text \<open>
  What \<^verbatim>\<open>process\<close> hands back: the two result columns, the offset column, the flag behind
  \<^verbatim>\<open>eos\<close> and the value passed to \<^verbatim>\<open>set_offset\<close>.
\<close>

record JsonEachOutput =
  result_keys :: "string list"
  result_values :: "JsonValue list"
  result_offsets :: "uint32_t list"
  eos :: bool
  state_offset :: int

text \<open>
  \<^verbatim>\<open>JsonEach::process\<close>. The argument is \<^verbatim>\<open>state->get_columns()\<close>, each column as the list
  of its JSON rows; column 0 is the input, and without columns there are no input rows.
  \<^verbatim>\<open>ColumnHelper::get_data_column\<close>, outside the excerpt, is taken to give a JSON column of
  as many rows as \<^verbatim>\<open>arg0\<close> has. The row loop visits the rows in order; its \<^verbatim>\<open>int\<close> counter
  only indexes them.
\<close>

definition JsonEach_process :: "JsonValue list list \<Rightarrow> JsonEachOutput" where
  "JsonEach_process columns =
     (let json_column = (if columns \<noteq> [] then columns ! 0 else []);
          v = fold process_row json_column
                \<lparr>key_column_ptr = [], value_column_ptr = [], offset_column = [0], offset = 0\<rparr>
      in \<lparr>result_keys = key_column_ptr v, result_values = value_column_ptr v,
          result_offsets = offset_column v, eos = True, state_offset = sint (offset v)\<rparr>)"

definition num_input_rows :: "JsonValue list list \<Rightarrow> nat" where
  "num_input_rows columns = (if columns \<noteq> [] then length (columns ! 0) else 0)"

definition INT_MAX :: nat where
  "INT_MAX = 2147483647"

text \<open>
  For the proofs: the variables are in step when both result columns have the same
  length, the counter is that length, and the offset column holds, as 32-bit values, a
  non-decreasing list of numbers that starts at \<open>0\<close>, ends at that length and has one
  entry more than rows were read.
\<close>

definition in_step :: "nat \<Rightarrow> process_vars \<Rightarrow> bool" where
  "in_step rows v \<longleftrightarrow>
     length (key_column_ptr v) = length (value_column_ptr v) \<and>
     offset v = of_nat (length (key_column_ptr v)) \<and>
     (\<exists>ps. offset_column v = map of_nat ps \<and> sorted ps \<and> length ps = rows + 1 \<and>
           hd ps = 0 \<and> last ps = length (key_column_ptr v))"

section \<open>One-shot loading (\<^verbatim>\<open>RowsetColumnUpdateState::load\<close>)\<close>

text \<open>
  \<^verbatim>\<open>struct BatchPKs\<close>: the primary keys of the update segments \<^verbatim>\<open>[start_idx, end_idx)\<close> in
  one column, the source row ids found for them, and the position of each segment in
  both. Keys are of any type \<open>'k\<close>; a \<^verbatim>\<open>size_t\<close> position is a natural number.
\<close>

record 'k BatchPKs =
  upserts :: "'k list"
  start_idx :: uint32_t
  end_idx :: uint32_t
  batch_src_rss_rowids :: "uint64_t list"
  offsets :: "nat list"

text \<open>
  The state of a \<^verbatim>\<open>std::once_flag\<close>, and the members of \<^verbatim>\<open>class RowsetColumnUpdateState\<close>
  that loading concerns: \<^verbatim>\<open>_load_once_flag\<close>, \<^verbatim>\<open>_status\<close> (here \<open>load_status\<close>), \<^verbatim>\<open>_upserts\<close>
  (here \<open>loaded_upserts\<close>) and \<^verbatim>\<open>_partial_update_states\<close>. In \<open>BatchPKs\<close> above, the member
  \<^verbatim>\<open>src_rss_rowids\<close> is \<open>batch_src_rss_rowids\<close>, the plain name being that of the per-segment
  state's member.
\<close>

datatype once_flag = NotCalled | InProgress | Completed

record ('k, 'v) RowsetColumnUpdateState =
  load_once_flag :: once_flag
  load_status :: Status
  loaded_upserts :: "'k BatchPKs list"
  partial_update_states :: "'v ColumnPartialUpdateState list"

text \<open>
  Modelled from the spec: the body of \<^verbatim>\<open>load\<close> is not in the excerpt, only its
  declaration and the members \<^verbatim>\<open>_load_once_flag\<close> and \<^verbatim>\<open>_status\<close>. The spec has it as an
  execute-once gate: the first caller performs the load and records its status, a call
  on an already loaded instance is a no-op that returns the recorded status, also a
  recorded failure. The load proper, \<^verbatim>\<open>_do_load\<close>, is the parameter \<open>do_load\<close>: it takes
  the instance, whose flag says that the load is in progress, and gives the status and
  the instance it leaves. This is a call made while no other call is active.
\<close>

definition load ::
  "(('k, 'v) RowsetColumnUpdateState \<Rightarrow> Status \<times> ('k, 'v) RowsetColumnUpdateState) \<Rightarrow>
   ('k, 'v) RowsetColumnUpdateState \<Rightarrow> Status \<times> ('k, 'v) RowsetColumnUpdateState" where
  "load do_load self =
     (if load_once_flag self = Completed then (load_status self, self)
      else (fst (do_load (self\<lparr>load_once_flag := InProgress\<rparr>)),
            (snd (do_load (self\<lparr>load_once_flag := InProgress\<rparr>)))
              \<lparr>load_once_flag := Completed,
               load_status := fst (do_load (self\<lparr>load_once_flag := InProgress\<rparr>))\<rparr>))"

text \<open>
  Modelled from the spec: the places of a caller of \<^verbatim>\<open>load\<close> when callers race through the
  gate, whose code is not in the excerpt. A caller is about to call, performs the load,
  has passed the gate, or has returned a status.
\<close>

datatype caller = Calling | Performing | Passed | Returned Status

text \<open>
  Modelled from the spec: a configuration of the race holds the instance, every caller's
  place and the number of loads performed so far.
\<close>

record ('k, 'v) race =
  inst :: "('k, 'v) RowsetColumnUpdateState"
  callers :: "nat \<Rightarrow> caller"
  loads_performed :: nat

text \<open>
  Modelled from the spec: one step of the race. The spec has the gate block concurrent
  entrants until the first completes and then replay its stored result. So a step is one
  caller entering the open gate, completing the load (\<^verbatim>\<open>_do_load\<close> and the assignment to
  \<^verbatim>\<open>_status\<close>), passing the closed gate, or returning \<^verbatim>\<open>_status\<close>; a caller that finds the load
  in progress has no step.
\<close>

inductive race_step ::
  "(('k, 'v) RowsetColumnUpdateState \<Rightarrow> Status \<times> ('k, 'v) RowsetColumnUpdateState) \<Rightarrow>
   ('k, 'v) race \<Rightarrow> ('k, 'v) race \<Rightarrow> bool"
  for do_load where
  enter: "callers c t = Calling \<Longrightarrow> load_once_flag (inst c) = NotCalled \<Longrightarrow>
      race_step do_load c
        (c\<lparr>inst := (inst c)\<lparr>load_once_flag := InProgress\<rparr>,
           callers := (callers c)(t := Performing)\<rparr>)"
| perform: "callers c t = Performing \<Longrightarrow>
      race_step do_load c
        (c\<lparr>inst := (snd (do_load (inst c)))
                \<lparr>load_once_flag := Completed, load_status := fst (do_load (inst c))\<rparr>,
           callers := (callers c)(t := Passed),
           loads_performed := Suc (loads_performed c)\<rparr>)"
| pass: "callers c t = Calling \<Longrightarrow> load_once_flag (inst c) = Completed \<Longrightarrow>
      race_step do_load c (c\<lparr>callers := (callers c)(t := Passed)\<rparr>)"
| return: "callers c t = Passed \<Longrightarrow>
      race_step do_load c (c\<lparr>callers := (callers c)(t := Returned (load_status (inst c)))\<rparr>)"

text \<open>
  Modelled from the spec: the configuration in which every caller is about to call an
  instance on which \<^verbatim>\<open>load\<close> has not been called.
\<close>

definition race_start :: "('k, 'v) RowsetColumnUpdateState \<Rightarrow> ('k, 'v) race" where
  "race_start self =
     \<lparr>inst = self\<lparr>load_once_flag := NotCalled\<rparr>, callers = (\<lambda>t. Calling), loads_performed = 0\<rparr>"

text \<open>
  For the proofs: what holds of every configuration that the callers can reach from
  \<open>race_start self\<close>.
\<close>

definition race_inv ::
  "(('k, 'v) RowsetColumnUpdateState \<Rightarrow> Status \<times> ('k, 'v) RowsetColumnUpdateState) \<Rightarrow>
   ('k, 'v) RowsetColumnUpdateState \<Rightarrow> ('k, 'v) race \<Rightarrow> bool" where
  "race_inv do_load self c \<longleftrightarrow>
     (case load_once_flag (inst c) of
        NotCalled \<Rightarrow>
          inst c = self\<lparr>load_once_flag := NotCalled\<rparr> \<and> loads_performed c = 0 \<and>
          (\<forall>t. callers c t = Calling)
      | InProgress \<Rightarrow>
          inst c = self\<lparr>load_once_flag := InProgress\<rparr> \<and> loads_performed c = 0 \<and>
          (\<exists>p. callers c p = Performing \<and> (\<forall>t. t \<noteq> p \<longrightarrow> callers c t = Calling))
      | Completed \<Rightarrow>
          inst c = snd (load do_load (self\<lparr>load_once_flag := NotCalled\<rparr>)) \<and>
          loads_performed c = 1 \<and>
          (\<forall>t. callers c t = Calling \<or> callers c t = Passed \<or>
               callers c t = Returned (fst (load do_load (self\<lparr>load_once_flag := NotCalled\<rparr>)))))"

section \<open>Loading key batches\<close>

text \<open>
  \<^verbatim>\<open>BatchPKs::split_src_rss_rowids\<close> and the condition of its \<^verbatim>\<open>DCHECK\<close>. The index
  arithmetic is that of \<^verbatim>\<open>uint32_t\<close>; the two iterators cut the rows from position
  \<^verbatim>\<open>offsets[idx - start_idx]\<close> up to \<^verbatim>\<open>offsets[idx - start_idx + 1]\<close> out of
  \<^verbatim>\<open>src_rss_rowids\<close>, and \<^verbatim>\<open>insert\<close> puts them in front of the target.
\<close>

definition split_dcheck :: "'k BatchPKs \<Rightarrow> uint32_t \<Rightarrow> bool" where
  "split_dcheck b idx \<longleftrightarrow> unat (idx - start_idx b + 1) < length (offsets b)"

definition split_src_rss_rowids :: "'k BatchPKs \<Rightarrow> uint32_t \<Rightarrow> uint64_t list \<Rightarrow> uint64_t list" where
  "split_src_rss_rowids b idx target_src_rss_rowids =
     (let first = offsets b ! unat (idx - start_idx b);
          last = offsets b ! unat (idx - start_idx b + 1)
      in take (last - first) (drop first (batch_src_rss_rowids b)) @ target_src_rss_rowids)"

text \<open>
  Modelled from the spec: \<^verbatim>\<open>_load_upserts\<close> and \<^verbatim>\<open>_do_load\<close> are not in the excerpt. The
  spec has the loader read the primary-key columns of the rowset's segments one after
  the other and group consecutive segments into batches whose cumulative serialized-key
  size stays under the memory budget, a batch being a run of one or more segments; a
  segment that cannot be read fails the load. The comments of \<^verbatim>\<open>BatchPKs\<close> have
  \<^verbatim>\<open>offsets\<close> record each segment's position in \<^verbatim>\<open>upserts\<close>, with the size of \<^verbatim>\<open>upserts\<close> as
  last item. This is the batch that starts at segment \<open>idx\<close>, before any segment is in it.
\<close>

definition new_batch :: "nat \<Rightarrow> 'k BatchPKs" where
  "new_batch idx =
     \<lparr>upserts = [], start_idx = of_nat idx, end_idx = of_nat idx,
      batch_src_rss_rowids = [], offsets = []\<rparr>"

text \<open>
  Modelled from the spec: a segment joins a batch. Its position in \<^verbatim>\<open>upserts\<close> is recorded
  in \<^verbatim>\<open>offsets\<close>, its keys are appended and the batch ends one segment later.
\<close>

definition add_segment :: "'k list \<Rightarrow> 'k BatchPKs \<Rightarrow> 'k BatchPKs" where
  "add_segment keys b =
     b\<lparr>upserts := upserts b @ keys, end_idx := end_idx b + 1,
       offsets := offsets b @ [length (upserts b)]\<rparr>"

text \<open>
  Modelled from the spec: a batch is complete. The last item of \<^verbatim>\<open>offsets\<close> is the size of
  \<^verbatim>\<open>upserts\<close>.
\<close>

definition close_batch :: "'k BatchPKs \<Rightarrow> 'k BatchPKs" where
  "close_batch b = b\<lparr>offsets := offsets b @ [length (upserts b)]\<rparr>"

text \<open>
  Modelled from the spec: the cumulative serialized size of the keys stays under the
  memory budget. \<open>key_size\<close> is the serialized size of one key.
\<close>

definition stays_under :: "('k \<Rightarrow> nat) \<Rightarrow> nat \<Rightarrow> 'k list \<Rightarrow> bool" where
  "stays_under key_size memory_budget keys \<longleftrightarrow> sum_list (map key_size keys) < memory_budget"

text \<open>
  Modelled from the spec: the pass of the loader over the segments. A segment is given
  by what reading its key column yields: a status that is not OK, or its keys. \<open>idx\<close> is
  the index of the next segment, \<open>cur\<close> the batch being gathered (without segments as
  long as its \<^verbatim>\<open>offsets\<close> are empty) and \<open>batches\<close> the batches already complete. A segment
  joins the batch being gathered if that batch is still without segments or stays under
  the budget with it; otherwise it starts the next batch.
\<close>

fun load_segments ::
  "('k \<Rightarrow> nat) \<Rightarrow> nat \<Rightarrow> (Status + 'k list) list \<Rightarrow> nat \<Rightarrow> 'k BatchPKs \<Rightarrow> 'k BatchPKs list \<Rightarrow>
   Status + 'k BatchPKs list" where
  "load_segments key_size memory_budget [] idx cur batches =
     Inr (if offsets cur = [] then batches else batches @ [close_batch cur])"
| "load_segments key_size memory_budget (segment # rest) idx cur batches =
     (case segment of
        Inl status \<Rightarrow> Inl status
      | Inr keys \<Rightarrow>
          if offsets cur \<noteq> [] \<and> \<not> stays_under key_size memory_budget (upserts cur @ keys)
          then load_segments key_size memory_budget rest (idx + 1)
                 (add_segment keys (new_batch idx)) (batches @ [close_batch cur])
          else load_segments key_size memory_budget rest (idx + 1)
                 (add_segment keys cur) batches)"

text \<open>
  Modelled from the spec: probing, which is not in the excerpt either. The spec has each
  batch probe the primary index once per key, in key order, for the key's row or the
  not-found marker, which is \<^verbatim>\<open>UINT64_MAX\<close> in the code. The index is the function from
  keys to what the probe finds.
\<close>

definition probe_batch :: "('k \<Rightarrow> uint64_t) \<Rightarrow> 'k BatchPKs \<Rightarrow> 'k BatchPKs" where
  "probe_batch index b = b\<lparr>batch_src_rss_rowids := map index (upserts b)\<rparr>"

text \<open>
  Modelled from the spec: the batches that a load produces, from segment \<open>0\<close> on, each one
  probed; or the status of the first segment that cannot be read.
\<close>

definition load_upserts ::
  "('k \<Rightarrow> nat) \<Rightarrow> nat \<Rightarrow> (Status + 'k list) list \<Rightarrow> ('k \<Rightarrow> uint64_t) \<Rightarrow> Status + 'k BatchPKs list" where
  "load_upserts key_size memory_budget segments index =
     (case load_segments key_size memory_budget segments 0 (new_batch 0) [] of
        Inl status \<Rightarrow> Inl status
      | Inr batches \<Rightarrow> Inr (map (probe_batch index) batches))"

text \<open>
  For the proofs: a batch is well formed below a bound when it covers the segments from
  \<open>s\<close> up to \<open>s + m\<close>, at most the bound, has \<open>m + 1\<close> non-decreasing offsets and ends them
  with the size of \<^verbatim>\<open>upserts\<close>; a batch being gathered has one offset per segment, none
  beyond the size of \<^verbatim>\<open>upserts\<close>.
\<close>

definition batch_closed :: "nat \<Rightarrow> 'k BatchPKs \<Rightarrow> bool" where
  "batch_closed bound b \<longleftrightarrow>
     (\<exists>s m. start_idx b = of_nat s \<and> end_idx b = of_nat (s + m) \<and> s + m \<le> bound \<and>
            length (offsets b) = m + 1 \<and> sorted (offsets b) \<and>
            last (offsets b) = length (upserts b))"

definition batch_open :: "nat \<Rightarrow> 'k BatchPKs \<Rightarrow> bool" where
  "batch_open idx b \<longleftrightarrow>
     (\<exists>s. start_idx b = of_nat s \<and> end_idx b = of_nat idx \<and> s + length (offsets b) = idx \<and>
          sorted (offsets b) \<and> (\<forall>x \<in> set (offsets b). x \<le> length (upserts b)))"

section \<open>Conflict resolution (\<^verbatim>\<open>_check_and_resolve_conflict\<close>)\<close>

text \<open>
  Modelled from the spec: \<^verbatim>\<open>_check_and_resolve_conflict\<close> and \<^verbatim>\<open>_resolve_conflict\<close> are only
  declared in the excerpt. The spec's algorithm: compare the version recorded at load
  time with \<^verbatim>\<open>latest_applied_version\<close>; if they are equal, nothing is done; otherwise, for
  every per-segment state of the rowset, all its keys are probed again, \<^verbatim>\<open>src_rss_rowids\<close>
  and the two containers are rebuilt from the fresh results by the partition rule of
  loading, and the new version is recorded in the state. A probe that fails aborts the
  resolution with its status, and no state is replaced.

  This is the probing of the keys of one segment: a probe of one key yields a status
  that is not OK, or the key's row id (\<^verbatim>\<open>UINT64_MAX\<close> if there is none); the keys are
  probed in order up to the first failure, and the probes made are counted.
\<close>

fun probe_keys ::
  "('k \<Rightarrow> Status + uint64_t) \<Rightarrow> 'k list \<Rightarrow> nat \<Rightarrow> (Status + uint64_t list) \<times> nat" where
  "probe_keys index [] probes = (Inr [], probes)"
| "probe_keys index (key # keys) probes =
     (case index key of
        Inl status \<Rightarrow> (Inl status, probes + 1)
      | Inr rowid \<Rightarrow>
          (case probe_keys index keys (probes + 1) of
             (Inl status, n) \<Rightarrow> (Inl status, n)
           | (Inr rowids, n) \<Rightarrow> (Inr (rowid # rowids), n)))"

text \<open>
  Modelled from the spec: the outcome of a resolution, which is the returned status, the
  per-segment states afterwards and the number of probes made.
\<close>

record 'v resolution =
  res_status :: Status
  res_states :: "'v ColumnPartialUpdateState list"
  res_probes :: nat

text \<open>
  Modelled from the spec: \<^verbatim>\<open>_resolve_conflict\<close>, the steps after the comparison. The states
  are resolved one after the other, each with the keys of its segment: the keys are
  probed, \<^verbatim>\<open>src_rss_rowids\<close> is replaced by the results, \<^verbatim>\<open>build_rss_rowid_to_update_rowid\<close>
  rebuilds the two containers and the new version is recorded. The result is \<open>None\<close> where
  \<^verbatim>\<open>build_rss_rowid_to_update_rowid\<close> does not return.
\<close>

fun resolve_conflict ::
  "('k \<Rightarrow> Status + uint64_t) \<Rightarrow> 'v \<Rightarrow> ('k list \<times> 'v ColumnPartialUpdateState) list \<Rightarrow> nat \<Rightarrow>
   ((Status + 'v ColumnPartialUpdateState list) \<times> nat) option" where
  "resolve_conflict index latest_applied_version [] probes = Some (Inr [], probes)"
| "resolve_conflict index latest_applied_version ((keys, st) # rest) probes =
     (case probe_keys index keys probes of
        (Inl status, n) \<Rightarrow> Some (Inl status, n)
      | (Inr rowids, n) \<Rightarrow>
          (case build_rss_rowid_to_update_rowid (st\<lparr>src_rss_rowids := rowids\<rparr>) of
             None \<Rightarrow> None
           | Some st' \<Rightarrow>
               (case resolve_conflict index latest_applied_version rest n of
                  None \<Rightarrow> None
                | Some (Inl status, m) \<Rightarrow> Some (Inl status, m)
                | Some (Inr states, m) \<Rightarrow>
                    Some (Inr (st'\<lparr>read_version := latest_applied_version\<rparr> # states), m))))"

text \<open>
  Modelled from the spec: \<^verbatim>\<open>_check_and_resolve_conflict\<close>. The version recorded at load
  time is the \<^verbatim>\<open>read_version\<close> of the states; \<open>segment_keys\<close> are the keys of the
  segments, in the order of the states.
\<close>

definition check_and_resolve_conflict ::
  "('k \<Rightarrow> Status + uint64_t) \<Rightarrow> 'v \<Rightarrow> 'k list list \<Rightarrow> 'v ColumnPartialUpdateState list \<Rightarrow>
   'v resolution option" where
  "check_and_resolve_conflict index latest_applied_version segment_keys states =
     (if list_all (\<lambda>st. read_version st = latest_applied_version) states
      then Some \<lparr>res_status = OK, res_states = states, res_probes = 0\<rparr>
      else case resolve_conflict index latest_applied_version (zip segment_keys states) 0 of
             None \<Rightarrow> None
           | Some (Inl status, n) \<Rightarrow>
               Some \<lparr>res_status = status, res_states = states, res_probes = n\<rparr>
           | Some (Inr states', n) \<Rightarrow>
               Some \<lparr>res_status = OK, res_states = states', res_probes = n\<rparr>)"

section \<open>The loop of \<^verbatim>\<open>build_rss_rowid_to_update_rowid\<close>\<close>

lemma src_build_body [simp]: "src_rss_rowids (build_body i st) = src_rss_rowids st"
  by (simp add: build_body_def Let_def)


lemma unat_of_nat32: "n < 2 ^ 32 \<Longrightarrow> unat (of_nat n :: uint32_t) = n"
  by (simp add: unat_of_nat)

lemma unat_lt32: "unat (w :: uint32_t) < 2 ^ 32"
  using unsigned_less[of w, where 'a = nat] by simp

lemma unat_plus1: "w + 1 \<noteq> 0 \<Longrightarrow> unat (w + 1) = Suc (unat w)" for w :: uint32_t
  using unatSuc[of w] by (simp add: add.commute)

lemma build_loop_fold:
  assumes "length (src_rss_rowids st) < 2 ^ 32" and "i \<le> length (src_rss_rowids st)"
  shows "build_loop (of_nat i) st =
           Some (fold build_body (map of_nat [i ..< length (src_rss_rowids st)]) st)"
  using assms
proof (induction "length (src_rss_rowids st) - i" arbitrary: i st)
  case 0
  then have "i = length (src_rss_rowids st)" by simp
  moreover have "unat (of_nat i :: uint32_t) = i"
    using 0 by (simp add: unat_of_nat32)
  ultimately show ?case by (subst build_loop.simps) simp
next
  case (Suc d)
  then have lt: "i < length (src_rss_rowids st)" by simp
  have u: "unat (of_nat i :: uint32_t) = i"
    using Suc.prems by (simp add: unat_of_nat32)
  have step: "build_loop (of_nat (Suc i)) (build_body (of_nat i) st) =
      Some (fold build_body (map of_nat [Suc i ..< length (src_rss_rowids st)]) (build_body (of_nat i) st))"
    using Suc.hyps(1)[of "build_body (of_nat i) st" "Suc i"] Suc.hyps(2) Suc.prems lt by simp
  show ?case
    using lt u step by (subst build_loop.simps) (simp add: upt_conv_Cons add.commute)
qed


lemma build_loop_Some_bound:
  assumes "build_loop i st = Some st'"
  shows "length (src_rss_rowids st) < 2 ^ 32 \<or> length (src_rss_rowids st) < unat i"
proof (rule build_loop.raw_induct
    [where P = "\<lambda>i st st'. length (src_rss_rowids st) < 2 ^ 32 \<or> length (src_rss_rowids st) < unat i",
     OF _ assms])
  fix loop :: "uint32_t \<Rightarrow> 'a ColumnPartialUpdateState \<Rightarrow> 'a ColumnPartialUpdateState option"
  fix upt_row_id st st'
  assume ih: "\<And>j s r. loop j s = Some r \<Longrightarrow>
                length (src_rss_rowids s) < 2 ^ 32 \<or> length (src_rss_rowids s) < unat j"
  assume body: "(if unat upt_row_id < length (src_rss_rowids st)
                 then loop (upt_row_id + 1) (build_body upt_row_id st) else Some st) = Some st'"
  show "length (src_rss_rowids st) < 2 ^ 32 \<or> length (src_rss_rowids st) < unat upt_row_id"
  proof (cases "unat upt_row_id < length (src_rss_rowids st)")
    case False
    with unat_lt32[of upt_row_id] show ?thesis by auto
  next
    case True
    with body have "loop (upt_row_id + 1) (build_body upt_row_id st) = Some st'"
      by simp
    from ih[OF this]
    have next_ok: "length (src_rss_rowids st) < 2 ^ 32 \<or> length (src_rss_rowids st) < unat (upt_row_id + 1)"
      by simp
    show ?thesis
    proof (cases "upt_row_id + 1 = 0")
      case wrap: True
      with next_ok show ?thesis by simp
    next
      case False
      with next_ok unat_lt32[of "upt_row_id + 1"] show ?thesis by auto
    qed
  qed
qed

lemma build_loop_Some_iff:
  assumes "i \<le> length (src_rss_rowids st)" "i < 2 ^ 32"
  shows "build_loop (of_nat i) st = Some st' \<longleftrightarrow>
         length (src_rss_rowids st) < 2 ^ 32 \<and>
         st' = fold build_body (map of_nat [i ..< length (src_rss_rowids st)]) st"
  using assms build_loop_fold[of st i] build_loop_Some_bound[of "of_nat i" st st']
  by (auto simp: unat_of_nat32)


lemma not_less_UINT64_MAX: "\<not> x < UINT64_MAX \<longleftrightarrow> x = UINT64_MAX"
proof -
  have "UINT64_MAX = - 1" by (simp add: UINT64_MAX_def)
  moreover have "x \<le> - 1" by (rule word_n1_ge)
  ultimately have "x \<le> UINT64_MAX" by (simp only:)
  then show ?thesis by auto
qed

lemma found_idx_Suc:
  "found_idx src (Suc m) k = (if src ! m = k then insert m (found_idx src m k) else found_idx src m k)"
  by (auto simp: found_idx_def less_Suc_eq)

lemma finite_found_idx [simp]: "finite (found_idx src m k)"
  by (simp add: found_idx_def)

lemma found_idx_lt: "l \<in> found_idx src m k \<Longrightarrow> l < m"
  by (simp add: found_idx_def)

lemma Max_insert_found_idx:
  "Max (insert m (found_idx src m k)) = m"
proof -
  have "\<forall>l \<in> found_idx src m k. l \<le> m"
    by (auto dest: found_idx_lt)
  then show ?thesis
    by (simp add: Max_insert2)
qed

lemma fold_build_body_prefix:
  assumes "m \<le> length (src_rss_rowids st)" "length (src_rss_rowids st) < 2 ^ 32"
  shows "fold build_body (map of_nat [0 ..< m]) st =
           st\<lparr>rss_rowid_to_update_rowid :=
                 (\<lambda>k. if k < UINT64_MAX \<and> found_idx (src_rss_rowids st) m k \<noteq> {}
                       then Some (of_nat (Max (found_idx (src_rss_rowids st) m k)))
                       else rss_rowid_to_update_rowid st k),
               insert_rowids := insert_rowids st @
                 map of_nat (filter (\<lambda>l. src_rss_rowids st ! l = UINT64_MAX) [0 ..< m])\<rparr>"
    (is "?lhs m = ?rhs m")
  using assms
proof (induction m)
  case 0
  then show ?case by (simp add: found_idx_def)
next
  case (Suc m)
  have u: "unat (of_nat m :: uint32_t) = m"
    using Suc.prems by (simp add: unat_of_nat32)
  have ih: "?lhs m = ?rhs m"
    using Suc by simp
  have unfold: "?lhs (Suc m) = build_body (of_nat m) (?rhs m)"
    by (simp add: ih)
  show ?case
  proof (cases "src_rss_rowids st ! m < UINT64_MAX")
    case True
    then have ne: "src_rss_rowids st ! m \<noteq> UINT64_MAX" by auto
    show ?thesis
      unfolding unfold using True ne u
      by (auto simp: build_body_def Let_def found_idx_Suc Max_insert_found_idx fun_eq_iff
               intro!: ColumnPartialUpdateState.equality)
  next
    case False
    then have eq: "src_rss_rowids st ! m = UINT64_MAX"
      by (simp add: not_less_UINT64_MAX)
    show ?thesis
      unfolding unfold using False eq u
      by (auto simp: build_body_def Let_def found_idx_Suc fun_eq_iff
               intro!: ColumnPartialUpdateState.equality)
  qed
qed


lemma build_Some_iff:
  "build_rss_rowid_to_update_rowid st = Some st' \<longleftrightarrow>
     length (src_rss_rowids st) < 2 ^ 32 \<and> st' = build_result st"
proof -
  let ?st0 = "st\<lparr>rss_rowid_to_update_rowid := Map.empty, insert_rowids := []\<rparr>"
  have "build_loop (of_nat 0) ?st0 = Some st' \<longleftrightarrow>
          length (src_rss_rowids ?st0) < 2 ^ 32 \<and>
          st' = fold build_body (map of_nat [0 ..< length (src_rss_rowids ?st0)]) ?st0"
    by (rule build_loop_Some_iff) simp_all
  moreover have "length (src_rss_rowids st) < 2 ^ 32 \<Longrightarrow>
      fold build_body (map of_nat [0 ..< length (src_rss_rowids ?st0)]) ?st0 = build_result st"
    using fold_build_body_prefix[of "length (src_rss_rowids st)" ?st0]
    by (simp add: build_result_def cong: if_cong)
  ultimately show ?thesis
    by (auto simp: build_rss_rowid_to_update_rowid_def)
qed

lemma of_nat32_less_iff:
  "i < 2 ^ 32 \<Longrightarrow> j < 2 ^ 32 \<Longrightarrow> (of_nat i :: uint32_t) < of_nat j \<longleftrightarrow> i < j"
  by (simp add: word_of_nat_less_iff take_bit_nat_eq_self)

lemma of_nat32_eq_iff:
  "i < 2 ^ 32 \<Longrightarrow> j < 2 ^ 32 \<Longrightarrow> (of_nat i :: uint32_t) = of_nat j \<longleftrightarrow> i = j"
  by (simp add: word_of_nat_eq_iff take_bit_nat_eq_self)

lemma of_nat_unat32: "of_nat (unat u) = (u :: uint32_t)"
  by simp

lemma src_build_result [simp]: "src_rss_rowids (build_result st) = src_rss_rowids st"
  by (simp add: build_result_def)

lemma insert_rowids_build_result:
  "insert_rowids (build_result st) =
     map of_nat (filter (\<lambda>l. src_rss_rowids st ! l = UINT64_MAX) [0 ..< length (src_rss_rowids st)])"
  by (simp add: build_result_def)

lemma set_insert_rowids_build_result:
  assumes "length (src_rss_rowids st) < 2 ^ 32"
  shows "u \<in> set (insert_rowids (build_result st)) \<longleftrightarrow>
           unat u < length (src_rss_rowids st) \<and> src_rss_rowids st ! unat u = UINT64_MAX"
proof
  assume "u \<in> set (insert_rowids (build_result st))"
  then obtain l where l: "u = of_nat l" "l < length (src_rss_rowids st)" "src_rss_rowids st ! l = UINT64_MAX"
    by (auto simp: insert_rowids_build_result)
  with assms have "unat u = l" by (simp add: unat_of_nat32)
  with l show "unat u < length (src_rss_rowids st) \<and> src_rss_rowids st ! unat u = UINT64_MAX"
    by simp
next
  assume a: "unat u < length (src_rss_rowids st) \<and> src_rss_rowids st ! unat u = UINT64_MAX"
  have "u = of_nat (unat u)" by simp
  with a show "u \<in> set (insert_rowids (build_result st))"
    unfolding insert_rowids_build_result set_map set_filter
    by (intro image_eqI[where x = "unat u"]) auto
qed

lemma sorted_insert_rowids_build_result:
  assumes "length (src_rss_rowids st) < 2 ^ 32"
  shows "sorted_wrt (<) (insert_rowids (build_result st))"
proof -
  let ?idx = "filter (\<lambda>l. src_rss_rowids st ! l = UINT64_MAX) [0 ..< length (src_rss_rowids st)]"
  have "sorted_wrt (<) ?idx"
    by (rule sorted_wrt_filter) (simp add: sorted_wrt_upt) 
  moreover have "\<forall>l \<in> set ?idx. l < 2 ^ 32"
    using assms by auto
  ultimately have "sorted_wrt (\<lambda>i j. (of_nat i :: uint32_t) < of_nat j) ?idx"
    by (auto intro: sorted_wrt_mono_rel[rotated] simp: of_nat32_less_iff)
  then show ?thesis
    by (simp add: insert_rowids_build_result sorted_wrt_map)
qed

text \<open>
  Claim C4. After \<^verbatim>\<open>build_rss_rowid_to_update_rowid\<close>, an index is an element of
  \<^verbatim>\<open>insert_rowids\<close> exactly when it is a valid position of \<^verbatim>\<open>src_rss_rowids\<close> holding
  \<^verbatim>\<open>UINT64_MAX\<close>, and \<^verbatim>\<open>insert_rowids\<close> is strictly ascending. The function returns for
  every vector of fewer than \<open>2 ^ 32\<close> entries, and leaves \<^verbatim>\<open>src_rss_rowids\<close> as it was.
\<close>

theorem insert_rowids_not_found_ascending:
  "(length (src_rss_rowids st) < 2 ^ 32 \<longrightarrow> build_rss_rowid_to_update_rowid st \<noteq> None) \<and>
   (\<forall>st'. build_rss_rowid_to_update_rowid st = Some st' \<longrightarrow>
      (\<forall>u. u \<in> set (insert_rowids st') \<longleftrightarrow>
            unat u < length (src_rss_rowids st') \<and> src_rss_rowids st' ! unat u = UINT64_MAX) \<and>
      sorted_wrt (<) (insert_rowids st') \<and>
      src_rss_rowids st' = src_rss_rowids st)"
  using set_insert_rowids_build_result[of st] sorted_insert_rowids_build_result[of st]
  by (simp add: build_Some_iff)


lemma rss_build_result:
  "rss_rowid_to_update_rowid (build_result st) k =
     (if k < UINT64_MAX \<and> found_idx (src_rss_rowids st) (length (src_rss_rowids st)) k \<noteq> {}
      then Some (of_nat (Max (found_idx (src_rss_rowids st) (length (src_rss_rowids st)) k)))
      else None)"
  by (simp add: build_result_def)

lemma rss_build_result_Some:
  assumes len: "length (src_rss_rowids st) < 2 ^ 32"
  shows "rss_rowid_to_update_rowid (build_result st) k = Some u \<longleftrightarrow>
           k < UINT64_MAX \<and> unat u < length (src_rss_rowids st) \<and> src_rss_rowids st ! unat u = k \<and>
           (\<forall>l < length (src_rss_rowids st). src_rss_rowids st ! l = k \<longrightarrow> l \<le> unat u)"
    (is "?L \<longleftrightarrow> ?R")
proof
  let ?F = "found_idx (src_rss_rowids st) (length (src_rss_rowids st)) k"
  assume ?L
  then have k: "k < UINT64_MAX" and ne: "?F \<noteq> {}" and u: "u = of_nat (Max ?F)"
    by (auto simp: rss_build_result split: if_splits)
  from ne have mem: "Max ?F \<in> ?F" by (intro Max_in) simp_all
  then have lt: "Max ?F < length (src_rss_rowids st)" and at: "src_rss_rowids st ! Max ?F = k"
    by (simp_all add: found_idx_def)
  from lt len u have un: "unat u = Max ?F" by (simp add: unat_of_nat32)
  have "\<forall>l < length (src_rss_rowids st). src_rss_rowids st ! l = k \<longrightarrow> l \<le> Max ?F"
    by (auto simp: found_idx_def intro!: Max_ge)
  with k lt at un show ?R by simp
next
  let ?F = "found_idx (src_rss_rowids st) (length (src_rss_rowids st)) k"
  assume r: ?R
  then have mem: "unat u \<in> ?F" by (simp add: found_idx_def)
  moreover from r have "\<forall>l \<in> ?F. l \<le> unat u" by (simp add: found_idx_def)
  ultimately have "Max ?F = unat u" by (intro Max_eqI) simp_all
  with mem r show ?L by (auto simp: rss_build_result)
qed

text \<open>
  Claim C3. If two update rows \<open>i < j\<close> carry the same found source row id, then after
  \<^verbatim>\<open>build_rss_rowid_to_update_rowid\<close> the map sends that source row id to the largest
  update-row index carrying it, which is at least \<open>j\<close> and so later than \<open>i\<close>.
\<close>

theorem later_update_row_wins:
  assumes "i < j" and "j < length (src_rss_rowids st)"
    and "src_rss_rowids st ! i = src_rss_rowids st ! j"
    and "src_rss_rowids st ! j < UINT64_MAX"
  shows "(length (src_rss_rowids st) < 2 ^ 32 \<longrightarrow> build_rss_rowid_to_update_rowid st \<noteq> None) \<and>
         (\<forall>st'. build_rss_rowid_to_update_rowid st = Some st' \<longrightarrow>
            (\<exists>u. rss_rowid_to_update_rowid st' (src_rss_rowids st ! j) = Some u \<and>
                 i < unat u \<and> j \<le> unat u \<and> unat u < length (src_rss_rowids st) \<and>
                 src_rss_rowids st ! unat u = src_rss_rowids st ! j \<and>
                 (\<forall>l < length (src_rss_rowids st).
                     src_rss_rowids st ! l = src_rss_rowids st ! j \<longrightarrow> l \<le> unat u)))"
proof (intro conjI allI impI)
  assume "length (src_rss_rowids st) < 2 ^ 32"
  then show "build_rss_rowid_to_update_rowid st \<noteq> None"
    by (simp add: build_Some_iff)
next
  fix st'
  assume "build_rss_rowid_to_update_rowid st = Some st'"
  then have len: "length (src_rss_rowids st) < 2 ^ 32" and st': "st' = build_result st"
    by (simp_all add: build_Some_iff)
  let ?k = "src_rss_rowids st ! j"
  let ?F = "found_idx (src_rss_rowids st) (length (src_rss_rowids st)) ?k"
  have "j \<in> ?F" using assms by (simp add: found_idx_def)
  then have "?F \<noteq> {}" by auto
  with assms(4) obtain u where u: "rss_rowid_to_update_rowid (build_result st) ?k = Some u"
    by (simp add: rss_build_result)
  then have props: "unat u < length (src_rss_rowids st)" "src_rss_rowids st ! unat u = ?k"
      "\<forall>l < length (src_rss_rowids st). src_rss_rowids st ! l = ?k \<longrightarrow> l \<le> unat u"
    using rss_build_result_Some[OF len, of ?k u] by simp_all
  from props(3) assms have "j \<le> unat u" by simp
  with assms(1) have "i < unat u" by simp
  with u props \<open>j \<le> unat u\<close> st'
  show "\<exists>u. rss_rowid_to_update_rowid st' ?k = Some u \<and>
                 i < unat u \<and> j \<le> unat u \<and> unat u < length (src_rss_rowids st) \<and>
                 src_rss_rowids st ! unat u = ?k \<and>
                 (\<forall>l < length (src_rss_rowids st). src_rss_rowids st ! l = ?k \<longrightarrow> l \<le> unat u)"
    by blast
qed


lemma dom_rss_build_result:
  "dom (rss_rowid_to_update_rowid (build_result st)) =
     set (filter (\<lambda>r. r < UINT64_MAX) (src_rss_rowids st))"
  by (auto simp: dom_def rss_build_result found_idx_def in_set_conv_nth)

lemma ran_rss_build_result:
  assumes "length (src_rss_rowids st) < 2 ^ 32"
  shows "u \<in> ran (rss_rowid_to_update_rowid (build_result st)) \<longleftrightarrow>
           unat u < length (src_rss_rowids st) \<and> src_rss_rowids st ! unat u < UINT64_MAX \<and>
           (\<forall>l < length (src_rss_rowids st).
               src_rss_rowids st ! l = src_rss_rowids st ! unat u \<longrightarrow> l \<le> unat u)"
  unfolding ran_def using rss_build_result_Some[OF assms, of _ u] by auto

lemma length_filter_nth:
  "length (filter (\<lambda>l. P (xs ! l)) [0 ..< length xs]) = length (filter P xs)"
proof -
  have "filter P xs = filter P (map (nth xs) [0 ..< length xs])"
    by (simp add: map_nth)
  also have "\<dots> = map (nth xs) (filter (\<lambda>l. P (xs ! l)) [0 ..< length xs])"
    by (simp add: filter_map comp_def)
  finally show ?thesis by simp
qed

lemma length_insert_rowids_build_result:
  "length (insert_rowids (build_result st)) =
     length (filter (\<lambda>r. \<not> r < UINT64_MAX) (src_rss_rowids st))"
  using length_filter_nth[of "\<lambda>r. r = UINT64_MAX" "src_rss_rowids st"]
  by (simp add: insert_rowids_build_result not_less_UINT64_MAX)

lemma distinct_filter_nth_eq:
  assumes "distinct (filter P xs)" "i < length xs" "j < length xs" "xs ! i = xs ! j" "P (xs ! i)"
  shows "i = j"
  using assms
proof (induction xs arbitrary: i j)
  case Nil
  then show ?case by simp
next
  case (Cons x xs)
  show ?case
  proof (cases i)
    case i0: 0
    show ?thesis
    proof (cases j)
      case 0
      with i0 show ?thesis by simp
    next
      case (Suc j')
      with i0 Cons.prems have "x = xs ! j'" "j' < length xs" "P x" by simp_all
      then have "x \<in> set (filter P xs)" by auto
      with Cons.prems(1) \<open>P x\<close> show ?thesis by simp
    qed
  next
    case (Suc i')
    show ?thesis
    proof (cases j)
      case 0
      with Suc Cons.prems have "x = xs ! i'" "i' < length xs" "P x" by simp_all
      then have "x \<in> set (filter P xs)" by auto
      with Cons.prems(1) \<open>P x\<close> show ?thesis by simp
    next
      case j: (Suc j')
      have "distinct (filter P xs)" using Cons.prems(1) by (simp split: if_splits)
      with Cons.IH[of i' j'] Cons.prems Suc j show ?thesis by simp
    qed
  qed
qed

text \<open>
  Claim C1, as amended. After \<^verbatim>\<open>build_rss_rowid_to_update_rowid\<close>, the update-row indices
  that are values of \<^verbatim>\<open>rss_rowid_to_update_rowid\<close> and the indices in \<^verbatim>\<open>insert_rowids\<close>
  are disjoint and all below the size of \<^verbatim>\<open>src_rss_rowids\<close>, and the two sizes add up to at
  most that size. When the found entries of \<^verbatim>\<open>src_rss_rowids\<close> are pairwise distinct, the
  sizes add up to exactly that size and the union is \<open>{0, ..., len - 1}\<close>.
\<close>

theorem update_rows_partition:
  "(length (src_rss_rowids st) < 2 ^ 32 \<longrightarrow> build_rss_rowid_to_update_rowid st \<noteq> None) \<and>
   (\<forall>st'. build_rss_rowid_to_update_rowid st = Some st' \<longrightarrow>
      ran (rss_rowid_to_update_rowid st') \<inter> set (insert_rowids st') = {} \<and>
      unat ` (ran (rss_rowid_to_update_rowid st') \<union> set (insert_rowids st'))
         \<subseteq> {0 ..< length (src_rss_rowids st')} \<and>
      card (dom (rss_rowid_to_update_rowid st')) + length (insert_rowids st')
         \<le> length (src_rss_rowids st') \<and>
      (distinct (filter (\<lambda>r. r < UINT64_MAX) (src_rss_rowids st')) \<longrightarrow>
         card (dom (rss_rowid_to_update_rowid st')) + length (insert_rowids st')
            = length (src_rss_rowids st') \<and>
         unat ` (ran (rss_rowid_to_update_rowid st') \<union> set (insert_rowids st'))
            = {0 ..< length (src_rss_rowids st')}))"
proof (intro conjI allI impI)
  assume "length (src_rss_rowids st) < 2 ^ 32"
  then show "build_rss_rowid_to_update_rowid st \<noteq> None"
    by (simp add: build_Some_iff)
next
  fix st'
  assume "build_rss_rowid_to_update_rowid st = Some st'"
  then have len: "length (src_rss_rowids st) < 2 ^ 32" and st': "st' = build_result st"
    by (simp_all add: build_Some_iff)
  let ?src = "src_rss_rowids st"
  let ?found = "\<lambda>r. r < UINT64_MAX"
  note ran = ran_rss_build_result[OF len] and ins = set_insert_rowids_build_result[OF len]
  show disj: "ran (rss_rowid_to_update_rowid st') \<inter> set (insert_rowids st') = {}"
    unfolding st' using ran ins by auto
  show sub: "unat ` (ran (rss_rowid_to_update_rowid st') \<union> set (insert_rowids st'))
         \<subseteq> {0 ..< length (src_rss_rowids st')}"
    unfolding st' using ran ins by auto
  have card_le: "card (set (filter ?found ?src)) \<le> length (filter ?found ?src)"
    by (rule card_length)
  have total: "length (filter ?found ?src) + length (filter (\<lambda>r. \<not> ?found r) ?src) = length ?src"
    by (rule sum_length_filter_compl)
  show "card (dom (rss_rowid_to_update_rowid st')) + length (insert_rowids st')
         \<le> length (src_rss_rowids st')"
    unfolding st' using card_le total
    by (simp add: dom_rss_build_result length_insert_rowids_build_result)
  {
    assume d: "distinct (filter ?found (src_rss_rowids st'))"
    then have d': "distinct (filter ?found ?src)" by (simp add: st')
    then have "card (set (filter ?found ?src)) = length (filter ?found ?src)"
      by (rule distinct_card)
    with total
    show "card (dom (rss_rowid_to_update_rowid st')) + length (insert_rowids st')
            = length (src_rss_rowids st')"
      unfolding st' by (simp add: dom_rss_build_result length_insert_rowids_build_result)
    have "{0 ..< length ?src} \<subseteq>
            unat ` (ran (rss_rowid_to_update_rowid (build_result st)) \<union> set (insert_rowids (build_result st)))"
    proof
      fix l assume "l \<in> {0 ..< length ?src}"
      then have l: "l < length ?src" by simp
      with len have ul: "unat (of_nat l :: uint32_t) = l" by (simp add: unat_of_nat32)
      show "l \<in> unat ` (ran (rss_rowid_to_update_rowid (build_result st)) \<union> set (insert_rowids (build_result st)))"
      proof (cases "?src ! l < UINT64_MAX")
        case True
        have "\<forall>l' < length ?src. ?src ! l' = ?src ! l \<longrightarrow> l' \<le> l"
          using distinct_filter_nth_eq[OF d' _ l] True by fastforce
        with True l ul have "of_nat l \<in> ran (rss_rowid_to_update_rowid (build_result st))"
          by (simp add: ran)
        with ul show ?thesis by (metis UnI1 image_eqI)
      next
        case False
        then have "?src ! l = UINT64_MAX" by (simp add: not_less_UINT64_MAX)
        with l ul have "of_nat l \<in> set (insert_rowids (build_result st))"
          by (simp add: ins)
        with ul show ?thesis by (metis UnI2 image_eqI)
      qed
    qed
    with sub show "unat ` (ran (rss_rowid_to_update_rowid st') \<union> set (insert_rowids st'))
            = {0 ..< length (src_rss_rowids st')}"
      unfolding st' by auto
  }
qed


theorem insert_rowids_not_found_ascending_witness:
  "length (src_rss_rowids \<lparr>inited = True, src_rss_rowids = [7, UINT64_MAX, 7, UINT64_MAX],
        read_version = (3::nat), rss_rowid_to_update_rowid = [9 \<mapsto> 4], insert_rowids = [8]\<rparr>) < 2 ^ 32 \<and>
   build_rss_rowid_to_update_rowid
      \<lparr>inited = True, src_rss_rowids = [7, UINT64_MAX, 7, UINT64_MAX],
        read_version = (3::nat), rss_rowid_to_update_rowid = [9 \<mapsto> 4], insert_rowids = [8]\<rparr>
    = Some \<lparr>inited = True, src_rss_rowids = [7, UINT64_MAX, 7, UINT64_MAX],
        read_version = 3, rss_rowid_to_update_rowid = [7 \<mapsto> 2], insert_rowids = [1, 3]\<rparr> \<and>
   (3 \<in> set [1, 3 :: uint32_t]) = (unat (3 :: uint32_t) < length [7, UINT64_MAX, 7, UINT64_MAX]
        \<and> [7, UINT64_MAX, 7, UINT64_MAX] ! unat (3 :: uint32_t) = UINT64_MAX) \<and>
   (2 \<in> set [1, 3 :: uint32_t]) = (unat (2 :: uint32_t) < length [7, UINT64_MAX, 7, UINT64_MAX]
        \<and> [7, UINT64_MAX, 7, UINT64_MAX] ! unat (2 :: uint32_t) = UINT64_MAX) \<and>
   sorted_wrt (<) [1, 3 :: uint32_t]"
proof -
  let ?st = "\<lparr>inited = True, src_rss_rowids = [7, UINT64_MAX, 7, UINT64_MAX],
        read_version = (3::nat), rss_rowid_to_update_rowid = [9 \<mapsto> 4], insert_rowids = [8]\<rparr>"
  let ?st' = "\<lparr>inited = True, src_rss_rowids = [7, UINT64_MAX, 7, UINT64_MAX],
        read_version = (3::nat), rss_rowid_to_update_rowid = [7 \<mapsto> 2], insert_rowids = [1, 3]\<rparr>"
  have run: "build_rss_rowid_to_update_rowid ?st = Some ?st'"
    by (simp add: build_rss_rowid_to_update_rowid_def build_loop.simps build_body_def UINT64_MAX_def)
  from insert_rowids_not_found_ascending[of ?st] run
  have "(\<forall>u. u \<in> set (insert_rowids ?st') \<longleftrightarrow>
            unat u < length (src_rss_rowids ?st') \<and> src_rss_rowids ?st' ! unat u = UINT64_MAX) \<and>
      sorted_wrt (<) (insert_rowids ?st')"
    by blast
  then have "(3 \<in> set (insert_rowids ?st') \<longleftrightarrow>
            unat (3::uint32_t) < length (src_rss_rowids ?st') \<and> src_rss_rowids ?st' ! unat (3::uint32_t) = UINT64_MAX)"
     and "(2 \<in> set (insert_rowids ?st') \<longleftrightarrow>
            unat (2::uint32_t) < length (src_rss_rowids ?st') \<and> src_rss_rowids ?st' ! unat (2::uint32_t) = UINT64_MAX)"
     and "sorted_wrt (<) (insert_rowids ?st')"
    by blast+
  with run show ?thesis by simp
qed


theorem later_update_row_wins_witness:
  "(0::nat) < 2 \<and> (2::nat) < length [7, UINT64_MAX, 7, UINT64_MAX] \<and>
   [7, UINT64_MAX, 7, UINT64_MAX] ! 0 = [7, UINT64_MAX, 7, UINT64_MAX] ! 2 \<and>
   [7, UINT64_MAX, 7, UINT64_MAX] ! 2 < UINT64_MAX \<and>
   build_rss_rowid_to_update_rowid
      \<lparr>inited = True, src_rss_rowids = [7, UINT64_MAX, 7, UINT64_MAX],
        read_version = (3::nat), rss_rowid_to_update_rowid = [9 \<mapsto> 4], insert_rowids = [8]\<rparr>
    = Some \<lparr>inited = True, src_rss_rowids = [7, UINT64_MAX, 7, UINT64_MAX],
        read_version = 3, rss_rowid_to_update_rowid = [7 \<mapsto> 2], insert_rowids = [1, 3]\<rparr> \<and>
   [7 \<mapsto> (2 :: uint32_t)] (7 :: uint64_t) = Some 2 \<and> unat (2 :: uint32_t) = 2"
proof -
  let ?src = "[7, UINT64_MAX, 7, UINT64_MAX]"
  let ?st = "\<lparr>inited = True, src_rss_rowids = ?src,
        read_version = (3::nat), rss_rowid_to_update_rowid = [9 \<mapsto> 4], insert_rowids = [8]\<rparr>"
  let ?st' = "\<lparr>inited = True, src_rss_rowids = ?src,
        read_version = (3::nat), rss_rowid_to_update_rowid = [7 \<mapsto> 2], insert_rowids = [1, 3]\<rparr>"
  have run: "build_rss_rowid_to_update_rowid ?st = Some ?st'"
    by (simp add: build_rss_rowid_to_update_rowid_def build_loop.simps build_body_def UINT64_MAX_def)
  have hyps: "(0::nat) < 2" "2 < length (src_rss_rowids ?st)"
      "src_rss_rowids ?st ! 0 = src_rss_rowids ?st ! 2" "src_rss_rowids ?st ! 2 < UINT64_MAX"
    by (simp_all add: UINT64_MAX_def)
  from later_update_row_wins[OF hyps] run
  obtain u where u: "rss_rowid_to_update_rowid ?st' (src_rss_rowids ?st ! 2) = Some u" "2 \<le> unat u"
    by blast
  then have "u = 2" by simp
  with u hyps run show ?thesis by simp
qed

text \<open>
  Claim C1 as stated fails when a found source row id repeats: on \<open>[5, 5]\<close> the second
  row overwrites the first in the map, which ends with one entry, and index \<open>0\<close> is in
  neither container.
\<close>

theorem update_rows_partition_counterexample:
  "build_rss_rowid_to_update_rowid
      \<lparr>inited = True, src_rss_rowids = [5, 5],
        read_version = (3::nat), rss_rowid_to_update_rowid = Map.empty, insert_rowids = []\<rparr>
    = Some \<lparr>inited = True, src_rss_rowids = [5, 5],
        read_version = 3, rss_rowid_to_update_rowid = [5 \<mapsto> 1], insert_rowids = []\<rparr> \<and>
   card (dom [(5 :: uint64_t) \<mapsto> (1 :: uint32_t)]) + length ([] :: uint32_t list)
      \<noteq> length [5, 5 :: uint64_t] \<and>
   unat ` (ran [(5 :: uint64_t) \<mapsto> (1 :: uint32_t)] \<union> set ([] :: uint32_t list))
      \<noteq> {0 ..< length [5, 5 :: uint64_t]}"
proof -
  have "(0::nat) \<in> {0 ..< Suc (Suc 0)}" by simp
  moreover have "(0::nat) \<notin> {Suc 0}" by simp
  ultimately have "{Suc 0} \<noteq> {0 ..< Suc (Suc 0)}" by metis
  then show ?thesis
    by (simp add: build_rss_rowid_to_update_rowid_def build_loop.simps build_body_def UINT64_MAX_def)
qed

theorem update_rows_partition_witness:
  "length (src_rss_rowids \<lparr>inited = True, src_rss_rowids = [7, UINT64_MAX, 4],
        read_version = (3::nat), rss_rowid_to_update_rowid = [9 \<mapsto> 4], insert_rowids = [8]\<rparr>) < 2 ^ 32 \<and>
   build_rss_rowid_to_update_rowid
      \<lparr>inited = True, src_rss_rowids = [7, UINT64_MAX, 4],
        read_version = (3::nat), rss_rowid_to_update_rowid = [9 \<mapsto> 4], insert_rowids = [8]\<rparr>
    = Some \<lparr>inited = True, src_rss_rowids = [7, UINT64_MAX, 4],
        read_version = 3, rss_rowid_to_update_rowid = [7 \<mapsto> 0, 4 \<mapsto> 2], insert_rowids = [1]\<rparr> \<and>
   distinct (filter (\<lambda>r. r < UINT64_MAX) [7, UINT64_MAX, 4]) \<and>
   ran [(7 :: uint64_t) \<mapsto> (0 :: uint32_t), 4 \<mapsto> 2] \<inter> set [1] = {} \<and>
   card (dom [(7 :: uint64_t) \<mapsto> (0 :: uint32_t), 4 \<mapsto> 2]) + length [1 :: uint32_t]
      = length [7, UINT64_MAX, 4] \<and>
   unat ` (ran [(7 :: uint64_t) \<mapsto> (0 :: uint32_t), 4 \<mapsto> 2] \<union> set [1])
      = {0 ..< length [7, UINT64_MAX, 4]}"
proof -
  let ?src = "[7, UINT64_MAX, 4]"
  let ?st = "\<lparr>inited = True, src_rss_rowids = ?src,
        read_version = (3::nat), rss_rowid_to_update_rowid = [9 \<mapsto> 4], insert_rowids = [8]\<rparr>"
  let ?st' = "\<lparr>inited = True, src_rss_rowids = ?src,
        read_version = (3::nat), rss_rowid_to_update_rowid = [7 \<mapsto> 0, 4 \<mapsto> 2], insert_rowids = [1]\<rparr>"
  have run: "build_rss_rowid_to_update_rowid ?st = Some ?st'"
    by (simp add: build_rss_rowid_to_update_rowid_def build_loop.simps build_body_def UINT64_MAX_def)
  have d: "distinct (filter (\<lambda>r. r < UINT64_MAX) (src_rss_rowids ?st'))"
    by (simp add: UINT64_MAX_def)
  have len: "length (src_rss_rowids ?st) < 2 ^ 32" by simp
  from update_rows_partition[of ?st] run d
  have "ran (rss_rowid_to_update_rowid ?st') \<inter> set (insert_rowids ?st') = {} \<and>
        card (dom (rss_rowid_to_update_rowid ?st')) + length (insert_rowids ?st')
            = length (src_rss_rowids ?st') \<and>
         unat ` (ran (rss_rowid_to_update_rowid ?st') \<union> set (insert_rowids ?st'))
            = {0 ..< length (src_rss_rowids ?st')}"
    by blast
  with run d len show ?thesis by simp
qed

section \<open>The position-delete builders\<close>

lemma parquet_rows_eq:
  "parquet_rows p b S = S \<union> batch_positions p b"
proof -
  have "fold (\<lambda>row acc. if file_path_array b ! row = p
                      then insert (pos_array b ! row) acc else acc) [0 ..< n] S
        = S \<union> {pos_array b ! row | row. row < n \<and> file_path_array b ! row = p}" for n
    by (induction n) (auto simp: less_Suc_eq)
  then show ?thesis
    by (simp add: parquet_rows_def batch_positions_def)
qed

lemma orc_rows_eq:
  "orc_rows p c S = S \<union> chunk_positions p c"
proof -
  have "fold (\<lambda>row acc. if file_path_col c ! row \<noteq> p
                      then acc else insert (position_col c ! row) acc) [0 ..< n] S
        = S \<union> {position_col c ! row | row. row < n \<and> file_path_col c ! row = p}" for n
    by (induction n) (auto simp: less_Suc_eq)
  then show ?thesis
    by (simp add: orc_rows_def chunk_positions_def)
qed

lemma parquet_loop_runs:
  assumes "\<forall>k. i \<le> k \<and> k < n \<longrightarrow> ok (has_next iter k)"
    and "\<not> ok (has_next iter n)" and "i \<le> n"
  shows "parquet_loop p iter i S =
           Some (has_next iter n, S \<union> (\<Union>k \<in> {i ..< n}. batch_positions p (next_batch iter k)))"
  using assms
proof (induction "n - i" arbitrary: i S)
  case 0
  then have "i = n" by simp
  with 0 show ?case by (subst parquet_loop.simps) simp
next
  case (Suc d)
  then have lt: "i < n" by simp
  with Suc.prems have oki: "ok (has_next iter i)" by simp
  have rest: "parquet_loop p iter (Suc i) (S \<union> batch_positions p (next_batch iter i)) =
      Some (has_next iter n, (S \<union> batch_positions p (next_batch iter i)) \<union>
             (\<Union>k \<in> {Suc i ..< n}. batch_positions p (next_batch iter k)))"
    using Suc.hyps(1)[of "Suc i"] Suc.hyps(2) Suc.prems lt by simp
  have split: "{i ..< n} = insert i {Suc i ..< n}"
    using lt by auto
  show ?case
    using oki rest by (subst parquet_loop.simps) (simp add: parquet_rows_eq split Un_assoc)
qed

lemma parquet_loop_Some:
  assumes "parquet_loop p iter i S = Some r"
  shows "\<exists>n \<ge> i. (\<forall>k. i \<le> k \<and> k < n \<longrightarrow> ok (has_next iter k)) \<and> \<not> ok (has_next iter n) \<and>
           r = (has_next iter n, S \<union> (\<Union>k \<in> {i ..< n}. batch_positions p (next_batch iter k)))"
proof (rule parquet_loop.raw_induct
    [where P = "\<lambda>p iter i S r. \<exists>n \<ge> i. (\<forall>k. i \<le> k \<and> k < n \<longrightarrow> ok (has_next iter k)) \<and>
           \<not> ok (has_next iter n) \<and>
           r = (has_next iter n, S \<union> (\<Union>k \<in> {i ..< n}. batch_positions p (next_batch iter k)))",
     OF _ assms])
  fix loop :: "string \<Rightarrow> IcebergDeleteFileIterator \<Rightarrow> nat \<Rightarrow> int64_t set \<Rightarrow> (Status \<times> int64_t set) option"
  fix p iter i S r
  assume ih: "\<And>p iter i S r. loop p iter i S = Some r \<Longrightarrow>
      \<exists>n \<ge> i. (\<forall>k. i \<le> k \<and> k < n \<longrightarrow> ok (has_next iter k)) \<and> \<not> ok (has_next iter n) \<and>
           r = (has_next iter n, S \<union> (\<Union>k \<in> {i ..< n}. batch_positions p (next_batch iter k)))"
  assume body: "(let status = has_next iter i in
      if \<not> ok status then Some (status, S)
      else loop p iter (i + 1) (parquet_rows p (next_batch iter i) S)) = Some r"
  show "\<exists>n \<ge> i. (\<forall>k. i \<le> k \<and> k < n \<longrightarrow> ok (has_next iter k)) \<and> \<not> ok (has_next iter n) \<and>
           r = (has_next iter n, S \<union> (\<Union>k \<in> {i ..< n}. batch_positions p (next_batch iter k)))"
  proof (cases "ok (has_next iter i)")
    case False
    with body have "r = (has_next iter i, S)" by (simp add: Let_def)
    with False show ?thesis by (intro exI[of _ i]) auto
  next
    case True
    with body have "loop p iter (Suc i) (S \<union> batch_positions p (next_batch iter i)) = Some r"
      by (simp add: Let_def parquet_rows_eq)
    from ih[OF this] obtain n where n: "Suc i \<le> n"
        "\<forall>k. Suc i \<le> k \<and> k < n \<longrightarrow> ok (has_next iter k)" "\<not> ok (has_next iter n)"
        "r = (has_next iter n, (S \<union> batch_positions p (next_batch iter i)) \<union>
               (\<Union>k \<in> {Suc i ..< n}. batch_positions p (next_batch iter k)))"
      by blast
    have split: "{i ..< n} = insert i {Suc i ..< n}"
      using n(1) by auto
    have all: "\<forall>k. i \<le> k \<and> k < n \<longrightarrow> ok (has_next iter k)"
      using n(2) True by (metis Suc_leI le_neq_implies_less)
    show ?thesis
      using n all by (intro exI[of _ n]) (simp add: split Un_assoc)
  qed
qed

lemma is_end_of_file_not_ok: "is_end_of_file s \<Longrightarrow> \<not> ok s"
  by (cases s) simp_all

lemma orc_loop_step:
  "chunk_read env i \<Longrightarrow>
   orc_loop p env i S =
     orc_loop p env (Suc i) (S \<union> chunk_positions p (chunk_of (get_chunk env i)))"
  by (subst orc_loop.simps)
     (auto simp: chunk_read_def chunk_of_def orc_rows_eq Let_def is_end_of_file_not_ok
           split: sum.splits)

lemma orc_loop_exit:
  "\<not> chunk_read env i \<Longrightarrow> orc_loop p env i S = Some (orc_exit_status env i, S)"
  by (subst orc_loop.simps)
     (auto simp: chunk_read_def orc_exit_status_def Let_def split: sum.splits)

lemma orc_loop_runs:
  assumes "\<forall>k. i \<le> k \<and> k < n \<longrightarrow> chunk_read env k"
    and "\<not> chunk_read env n" and "i \<le> n"
  shows "orc_loop p env i S =
           Some (orc_exit_status env n,
                 S \<union> (\<Union>k \<in> {i ..< n}. chunk_positions p (chunk_of (get_chunk env k))))"
  using assms
proof (induction "n - i" arbitrary: i S)
  case 0
  then have "i = n" by simp
  with 0 show ?case by (simp add: orc_loop_exit)
next
  case (Suc d)
  then have lt: "i < n" by simp
  with Suc.prems have rd: "chunk_read env i" by simp
  have rest: "orc_loop p env (Suc i) (S \<union> chunk_positions p (chunk_of (get_chunk env i))) =
      Some (orc_exit_status env n, (S \<union> chunk_positions p (chunk_of (get_chunk env i))) \<union>
             (\<Union>k \<in> {Suc i ..< n}. chunk_positions p (chunk_of (get_chunk env k))))"
    using Suc.hyps(1)[of "Suc i"] Suc.hyps(2) Suc.prems lt by simp
  have split: "{i ..< n} = insert i {Suc i ..< n}"
    using lt by auto
  show ?case
    using rest by (simp add: orc_loop_step[OF rd] split Un_assoc)
qed

lemma orc_loop_Some:
  assumes "orc_loop p env i S = Some r"
  shows "\<exists>n \<ge> i. (\<forall>k. i \<le> k \<and> k < n \<longrightarrow> chunk_read env k) \<and> \<not> chunk_read env n \<and>
           r = (orc_exit_status env n,
                S \<union> (\<Union>k \<in> {i ..< n}. chunk_positions p (chunk_of (get_chunk env k))))"
proof (rule orc_loop.raw_induct
    [where P = "\<lambda>p env i S r. \<exists>n \<ge> i. (\<forall>k. i \<le> k \<and> k < n \<longrightarrow> chunk_read env k) \<and>
           \<not> chunk_read env n \<and>
           r = (orc_exit_status env n,
                S \<union> (\<Union>k \<in> {i ..< n}. chunk_positions p (chunk_of (get_chunk env k))))",
     OF _ assms])
  fix loop :: "string \<Rightarrow> OrcEnvironment \<Rightarrow> nat \<Rightarrow> int64_t set \<Rightarrow> (Status \<times> int64_t set) option"
  fix p env i S r
  assume ih: "\<And>p env i S r. loop p env i S = Some r \<Longrightarrow>
      \<exists>n \<ge> i. (\<forall>k. i \<le> k \<and> k < n \<longrightarrow> chunk_read env k) \<and> \<not> chunk_read env n \<and>
           r = (orc_exit_status env n,
                S \<union> (\<Union>k \<in> {i ..< n}. chunk_positions p (chunk_of (get_chunk env k))))"
  assume body: "(let s = read_next env i in
      if is_end_of_file s then Some (OK, S)
      else if \<not> ok s then Some (s, S)
      else case get_chunk env i of
             Inl status \<Rightarrow> Some (status, S)
           | Inr chunk \<Rightarrow>
               if k_delete_file_path_id \<notin> slot_ids chunk \<or> k_delete_file_pos_id \<notin> slot_ids chunk
               then Some (schema_error, S)
               else loop p env (i + 1) (orc_rows p chunk S)) = Some r"
  show "\<exists>n \<ge> i. (\<forall>k. i \<le> k \<and> k < n \<longrightarrow> chunk_read env k) \<and> \<not> chunk_read env n \<and>
           r = (orc_exit_status env n,
                S \<union> (\<Union>k \<in> {i ..< n}. chunk_positions p (chunk_of (get_chunk env k))))"
  proof (cases "chunk_read env i")
    case False
    with body have "r = (orc_exit_status env i, S)"
      by (auto simp: chunk_read_def orc_exit_status_def Let_def split: sum.splits if_splits)
    with False show ?thesis by (intro exI[of _ i]) auto
  next
    case True
    with body have "loop p env (Suc i) (S \<union> chunk_positions p (chunk_of (get_chunk env i))) = Some r"
      by (auto simp: chunk_read_def chunk_of_def orc_rows_eq Let_def is_end_of_file_not_ok
               split: sum.splits if_splits)
    from ih[OF this] obtain n where n: "Suc i \<le> n"
        "\<forall>k. Suc i \<le> k \<and> k < n \<longrightarrow> chunk_read env k" "\<not> chunk_read env n"
        "r = (orc_exit_status env n, (S \<union> chunk_positions p (chunk_of (get_chunk env i))) \<union>
               (\<Union>k \<in> {Suc i ..< n}. chunk_positions p (chunk_of (get_chunk env k))))"
      by blast
    have split: "{i ..< n} = insert i {Suc i ..< n}"
      using n(1) by auto
    have all: "\<forall>k. i \<le> k \<and> k < n \<longrightarrow> chunk_read env k"
      using n(2) True by (metis Suc_leI le_neq_implies_less)
    show ?thesis
      using n all by (intro exI[of _ n]) (simp add: split Un_assoc)
  qed
qed

lemma parquet_build_runs:
  assumes "ok (init_status iter)" and "\<forall>k < n. ok (has_next iter k)" and "\<not> ok (has_next iter n)"
  shows "ParquetPositionDeleteBuilder_build p iter S =
           Some (if is_end_of_file (has_next iter n) then OK else has_next iter n,
                 S \<union> (\<Union>k \<in> {0 ..< n}. batch_positions p (next_batch iter k)))"
proof -
  have "parquet_loop p iter 0 S =
          Some (has_next iter n, S \<union> (\<Union>k \<in> {0 ..< n}. batch_positions p (next_batch iter k)))"
    using assms(2,3) by (intro parquet_loop_runs) simp_all
  with assms(1) show ?thesis
    by (simp add: ParquetPositionDeleteBuilder_build_def)
qed

lemma parquet_build_SomeD:
  assumes "ok (init_status iter)" and "ParquetPositionDeleteBuilder_build p iter S = Some (st, S')"
  shows "\<exists>n. (\<forall>k < n. ok (has_next iter k)) \<and> \<not> ok (has_next iter n) \<and>
           st = (if is_end_of_file (has_next iter n) then OK else has_next iter n) \<and>
           S' = S \<union> (\<Union>k \<in> {0 ..< n}. batch_positions p (next_batch iter k))"
proof -
  from assms obtain r where r: "parquet_loop p iter 0 S = Some r"
    by (auto simp: ParquetPositionDeleteBuilder_build_def split: option.splits)
  from parquet_loop_Some[OF r] obtain n where n:
      "\<forall>k < n. ok (has_next iter k)" "\<not> ok (has_next iter n)"
      "r = (has_next iter n, S \<union> (\<Union>k \<in> {0 ..< n}. batch_positions p (next_batch iter k)))"
    by auto
  from assms r n(3)
  have "st = (if is_end_of_file (has_next iter n) then OK else has_next iter n)"
    and "S' = S \<union> (\<Union>k \<in> {0 ..< n}. batch_positions p (next_batch iter k))"
    by (simp_all add: ParquetPositionDeleteBuilder_build_def split: if_splits)
  with n(1,2) show ?thesis by blast
qed

lemma parquet_build_init_fails:
  "\<not> ok (init_status iter) \<Longrightarrow>
     ParquetPositionDeleteBuilder_build p iter S = Some (init_status iter, S)"
  by (simp add: ParquetPositionDeleteBuilder_build_def)

lemma orc_build_setup_fails:
  "\<not> orc_setup_ok env \<Longrightarrow> ORCPositionDeleteBuilder_build p env S = Some (st, S') \<Longrightarrow>
     \<not> ok st \<and> S' = S"
  by (auto simp: ORCPositionDeleteBuilder_build_def orc_setup_ok_def split: option.splits if_splits)

lemma orc_build_loop:
  "orc_setup_ok env \<Longrightarrow> ORCPositionDeleteBuilder_build p env S = orc_loop p env 0 S"
  by (simp add: ORCPositionDeleteBuilder_build_def orc_setup_ok_def)

lemma orc_build_runs:
  assumes "orc_setup_ok env" and "\<forall>k < n. chunk_read env k" and "\<not> chunk_read env n"
  shows "ORCPositionDeleteBuilder_build p env S =
           Some (orc_exit_status env n,
                 S \<union> (\<Union>k \<in> {0 ..< n}. chunk_positions p (chunk_of (get_chunk env k))))"
proof -
  have "orc_loop p env 0 S = Some (orc_exit_status env n,
          S \<union> (\<Union>k \<in> {0 ..< n}. chunk_positions p (chunk_of (get_chunk env k))))"
    using assms(2,3) by (intro orc_loop_runs) simp_all
  with assms(1) show ?thesis by (simp add: orc_build_loop)
qed

lemma orc_build_SomeD:
  assumes "orc_setup_ok env" and "ORCPositionDeleteBuilder_build p env S = Some (st, S')"
  shows "\<exists>n. (\<forall>k < n. chunk_read env k) \<and> \<not> chunk_read env n \<and>
          st = orc_exit_status env n \<and>
          S' = S \<union> (\<Union>k \<in> {0 ..< n}. chunk_positions p (chunk_of (get_chunk env k)))"
proof -
  from assms have r: "orc_loop p env 0 S = Some (st, S')"
    by (simp add: orc_build_loop)
  from orc_loop_Some[OF r] obtain n where
      "\<forall>k < n. chunk_read env k" "\<not> chunk_read env n"
      "(st, S') = (orc_exit_status env n,
          S \<union> (\<Union>k \<in> {0 ..< n}. chunk_positions p (chunk_of (get_chunk env k))))"
    by auto
  then show ?thesis by (intro exI[of _ n]) simp
qed

lemma orc_exit_status_read:
  "\<not> ok (read_next env m) \<Longrightarrow>
     orc_exit_status env m = (if is_end_of_file (read_next env m) then OK else read_next env m)"
  by (simp add: orc_exit_status_def)

lemma orc_exit_status_not_eof:
  assumes "\<forall>k status. get_chunk env k = Inl status \<longrightarrow> \<not> is_end_of_file status"
  shows "\<not> is_end_of_file (orc_exit_status env n)"
proof (cases "get_chunk env n")
  case (Inl status)
  with assms have "\<not> is_end_of_file status" by blast
  with Inl show ?thesis by (simp add: orc_exit_status_def)
next
  case (Inr chunk)
  then show ?thesis by (simp add: orc_exit_status_def schema_error_def)
qed

lemma orc_build_open_fails:
  "\<not> ok (new_random_access_file env) \<Longrightarrow>
     ORCPositionDeleteBuilder_build p env S = Some (new_random_access_file env, S)"
  by (simp add: ORCPositionDeleteBuilder_build_def)

lemma orc_build_create_reader_fails:
  "ok (new_random_access_file env) \<Longrightarrow> create_reader_throws env = Some what \<Longrightarrow>
     ORCPositionDeleteBuilder_build p env S =
       Some (InternalError
               (''ORCPositionDeleteBuilder::build create orc::Reader failed. reason = '' @ what), S)"
  by (simp add: ORCPositionDeleteBuilder_build_def)

lemma orc_build_set_timezone_fails:
  "ok (new_random_access_file env) \<Longrightarrow> create_reader_throws env = None \<Longrightarrow>
   \<not> ok (set_timezone env) \<Longrightarrow>
     ORCPositionDeleteBuilder_build p env S = Some (set_timezone env, S)"
  by (simp add: ORCPositionDeleteBuilder_build_def)

lemma orc_build_reader_init_fails:
  "ok (new_random_access_file env) \<Longrightarrow> create_reader_throws env = None \<Longrightarrow>
   ok (set_timezone env) \<Longrightarrow> \<not> ok (reader_init env) \<Longrightarrow>
     ORCPositionDeleteBuilder_build p env S = Some (reader_init env, S)"
  by (simp add: ORCPositionDeleteBuilder_build_def)

lemma orc_build_get_chunk_fails:
  assumes "orc_setup_ok env" and "\<forall>k < m. chunk_read env k"
    and "ok (read_next env m)" and "get_chunk env m = Inl status"
  shows "ORCPositionDeleteBuilder_build p env S =
           Some (status, S \<union> (\<Union>k \<in> {0 ..< m}. chunk_positions p (chunk_of (get_chunk env k))))"
proof -
  from assms(4) have stop: "\<not> chunk_read env m" by (simp add: chunk_read_def)
  from assms(3) have "\<not> is_end_of_file (read_next env m)"
    using is_end_of_file_not_ok by blast
  with assms(3,4) have "orc_exit_status env m = status" by (simp add: orc_exit_status_def)
  with orc_build_runs[OF assms(1,2) stop, of p S] show ?thesis by simp
qed

lemma parquet_build_end_of_file:
  assumes "ParquetPositionDeleteBuilder_build p iter S = Some (st, S')" and "is_end_of_file st"
  shows "\<not> ok (init_status iter) \<and> st = init_status iter"
proof (cases "ok (init_status iter)")
  case True
  from parquet_build_SomeD[OF True assms(1)] obtain j where
    "st = (if is_end_of_file (has_next iter j) then OK else has_next iter j)"
    by blast
  with assms(2) show ?thesis by (simp split: if_splits)
next
  case False
  from parquet_build_init_fails[OF False, of p S] assms(1) False show ?thesis by simp
qed

lemma orc_build_end_of_file:
  assumes "ORCPositionDeleteBuilder_build p env S = Some (st, S')" and "is_end_of_file st"
  shows "st = new_random_access_file env \<or> st = set_timezone env \<or> st = reader_init env \<or>
         (\<exists>k. get_chunk env k = Inl st)"
proof (cases "orc_setup_ok env")
  case True
  from orc_build_SomeD[OF True assms(1)] obtain j where j: "st = orc_exit_status env j"
    by blast
  have "get_chunk env j = Inl st"
  proof (cases "get_chunk env j")
    case (Inl status)
    with j assms(2) show ?thesis
      by (simp add: orc_exit_status_def split: if_splits)
  next
    case (Inr chunk)
    with j assms(2) show ?thesis
      by (simp add: orc_exit_status_def schema_error_def split: if_splits)
  qed
  then show ?thesis by blast
next
  case False
  with assms show ?thesis
    by (auto simp: ORCPositionDeleteBuilder_build_def orc_setup_ok_def
             split: option.splits if_splits)
qed

text \<open>
  Claim C8 as stated fails: a step that is not the sequential read hands its status to
  the caller unchanged, also the end-of-file status. If \<^verbatim>\<open>init\<close> of the Parquet iterator
  answers end of file, or \<^verbatim>\<open>get_chunk\<close> of the ORC reader does after a successful
  \<^verbatim>\<open>read_next\<close>, then \<^verbatim>\<open>build\<close> returns that end-of-file status as a failure.
\<close>

theorem end_of_file_status_returned_counterexample:
  "ParquetPositionDeleteBuilder_build ''a.parquet''
      \<lparr>init_status = EndOfFile ''empty file'', has_next = replay [] (EndOfFile ''eof''),
        next_batch = replay [] \<lparr>num_rows = 0, file_path_array = [], pos_array = []\<rparr>\<rparr>
      {1}
    = Some (EndOfFile ''empty file'', {1}) \<and>
   is_end_of_file (EndOfFile ''empty file'') \<and>
   ORCPositionDeleteBuilder_build ''a.orc''
      \<lparr>new_random_access_file = OK, create_reader_throws = None, set_timezone = OK, reader_init = OK,
        read_next = replay [] OK,
        get_chunk = replay [] (Inl (EndOfFile ''chunk eof''))\<rparr>
      {1}
    = Some (EndOfFile ''chunk eof'', {1}) \<and>
   is_end_of_file (EndOfFile ''chunk eof'')"
  by (simp add: ParquetPositionDeleteBuilder_build_def ORCPositionDeleteBuilder_build_def
        orc_loop.simps replay_def)

text \<open>
  Claim C8, as amended. For both position-delete builders: a step before the loop that
  fails (\<^verbatim>\<open>init\<close> of the Parquet iterator; \<^verbatim>\<open>new_random_access_file\<close>, \<^verbatim>\<open>orc::createReader\<close>,
  \<^verbatim>\<open>set_timezone\<close>, \<^verbatim>\<open>init\<close> of the ORC reader) makes \<^verbatim>\<open>build\<close> return that step's status,
  and so does a failing \<^verbatim>\<open>get_chunk\<close>, the set as far as it was built. Once the steps
  before the loop have succeeded, when the sequential read (\<^verbatim>\<open>has_next\<close>, \<^verbatim>\<open>read_next\<close>) ends
  with a status that is not OK, \<^verbatim>\<open>build\<close> returns OK if that status is end of file and
  that status itself otherwise. So \<^verbatim>\<open>build\<close> returns an end-of-file status only when a
  step before the loop, or \<^verbatim>\<open>get_chunk\<close>, hands it over.
\<close>

theorem read_end_of_file_is_success:
  "(\<not> ok (init_status iter) \<longrightarrow>
      ParquetPositionDeleteBuilder_build p iter S = Some (init_status iter, S)) \<and>
   (ok (init_status iter) \<and> (\<forall>k < n. ok (has_next iter k)) \<and> \<not> ok (has_next iter n) \<longrightarrow>
      ParquetPositionDeleteBuilder_build p iter S =
        Some (if is_end_of_file (has_next iter n) then OK else has_next iter n,
              S \<union> (\<Union>k \<in> {0 ..< n}. batch_positions p (next_batch iter k)))) \<and>
   (ParquetPositionDeleteBuilder_build p iter S = Some (st, S') \<and> is_end_of_file st \<longrightarrow>
      \<not> ok (init_status iter) \<and> st = init_status iter) \<and>
   (\<not> ok (new_random_access_file env) \<longrightarrow>
      ORCPositionDeleteBuilder_build p env S = Some (new_random_access_file env, S)) \<and>
   (ok (new_random_access_file env) \<and> create_reader_throws env = Some what \<longrightarrow>
      ORCPositionDeleteBuilder_build p env S =
        Some (InternalError
                (''ORCPositionDeleteBuilder::build create orc::Reader failed. reason = '' @ what),
              S)) \<and>
   (ok (new_random_access_file env) \<and> create_reader_throws env = None \<and>
    \<not> ok (set_timezone env) \<longrightarrow>
      ORCPositionDeleteBuilder_build p env S = Some (set_timezone env, S)) \<and>
   (ok (new_random_access_file env) \<and> create_reader_throws env = None \<and>
    ok (set_timezone env) \<and> \<not> ok (reader_init env) \<longrightarrow>
      ORCPositionDeleteBuilder_build p env S = Some (reader_init env, S)) \<and>
   (orc_setup_ok env \<and> (\<forall>k < m. chunk_read env k) \<and> \<not> ok (read_next env m) \<longrightarrow>
      ORCPositionDeleteBuilder_build p env S =
        Some (if is_end_of_file (read_next env m) then OK else read_next env m,
              S \<union> (\<Union>k \<in> {0 ..< m}. chunk_positions p (chunk_of (get_chunk env k))))) \<and>
   (orc_setup_ok env \<and> (\<forall>k < m. chunk_read env k) \<and> ok (read_next env m) \<and>
    get_chunk env m = Inl status \<longrightarrow>
      ORCPositionDeleteBuilder_build p env S =
        Some (status, S \<union> (\<Union>k \<in> {0 ..< m}. chunk_positions p (chunk_of (get_chunk env k))))) \<and>
   (ORCPositionDeleteBuilder_build p env S = Some (st, S') \<and> is_end_of_file st \<longrightarrow>
      st = new_random_access_file env \<or> st = set_timezone env \<or> st = reader_init env \<or>
      (\<exists>k. get_chunk env k = Inl st))"
proof -
  have p1: "ParquetPositionDeleteBuilder_build p iter S = Some (init_status iter, S)"
    if "\<not> ok (init_status iter)"
    using that by (rule parquet_build_init_fails)
  have p2: "ParquetPositionDeleteBuilder_build p iter S =
        Some (if is_end_of_file (has_next iter n) then OK else has_next iter n,
              S \<union> (\<Union>k \<in> {0 ..< n}. batch_positions p (next_batch iter k)))"
    if "ok (init_status iter) \<and> (\<forall>k < n. ok (has_next iter k)) \<and> \<not> ok (has_next iter n)"
    using that by (intro parquet_build_runs) simp_all
  have p3: "\<not> ok (init_status iter) \<and> st = init_status iter"
    if "ParquetPositionDeleteBuilder_build p iter S = Some (st, S') \<and> is_end_of_file st"
    using that parquet_build_end_of_file[of p iter S st S'] by simp
  have o1: "ORCPositionDeleteBuilder_build p env S = Some (new_random_access_file env, S)"
    if "\<not> ok (new_random_access_file env)"
    using that by (rule orc_build_open_fails)
  have o2: "ORCPositionDeleteBuilder_build p env S =
        Some (InternalError
                (''ORCPositionDeleteBuilder::build create orc::Reader failed. reason = '' @ what),
              S)"
    if "ok (new_random_access_file env) \<and> create_reader_throws env = Some what"
    using that by (intro orc_build_create_reader_fails) simp_all
  have o3: "ORCPositionDeleteBuilder_build p env S = Some (set_timezone env, S)"
    if "ok (new_random_access_file env) \<and> create_reader_throws env = None \<and>
        \<not> ok (set_timezone env)"
    using that by (intro orc_build_set_timezone_fails) simp_all
  have o4: "ORCPositionDeleteBuilder_build p env S = Some (reader_init env, S)"
    if "ok (new_random_access_file env) \<and> create_reader_throws env = None \<and>
        ok (set_timezone env) \<and> \<not> ok (reader_init env)"
    using that by (intro orc_build_reader_init_fails) simp_all
  have o5: "ORCPositionDeleteBuilder_build p env S =
        Some (if is_end_of_file (read_next env m) then OK else read_next env m,
              S \<union> (\<Union>k \<in> {0 ..< m}. chunk_positions p (chunk_of (get_chunk env k))))"
    if a: "orc_setup_ok env \<and> (\<forall>k < m. chunk_read env k) \<and> \<not> ok (read_next env m)"
  proof -
    from a have stop: "\<not> chunk_read env m" by (simp add: chunk_read_def)
    from a have sok: "orc_setup_ok env" and rd: "\<forall>k < m. chunk_read env k" by simp_all
    from orc_build_runs[OF sok rd stop, of p S] a show ?thesis
      by (simp add: orc_exit_status_read)
  qed
  have o6: "ORCPositionDeleteBuilder_build p env S =
        Some (status, S \<union> (\<Union>k \<in> {0 ..< m}. chunk_positions p (chunk_of (get_chunk env k))))"
    if "orc_setup_ok env \<and> (\<forall>k < m. chunk_read env k) \<and> ok (read_next env m) \<and>
        get_chunk env m = Inl status"
    using that by (intro orc_build_get_chunk_fails) simp_all
  have o7: "st = new_random_access_file env \<or> st = set_timezone env \<or> st = reader_init env \<or>
      (\<exists>k. get_chunk env k = Inl st)"
    if "ORCPositionDeleteBuilder_build p env S = Some (st, S') \<and> is_end_of_file st"
    using that orc_build_end_of_file[of p env S st S'] by simp
  show ?thesis
  proof (intro conjI)
    show "\<not> ok (init_status iter) \<longrightarrow>
      ParquetPositionDeleteBuilder_build p iter S = Some (init_status iter, S)"
      using p1 by (rule impI)
    show "ok (init_status iter) \<and> (\<forall>k < n. ok (has_next iter k)) \<and> \<not> ok (has_next iter n) \<longrightarrow>
      ParquetPositionDeleteBuilder_build p iter S =
        Some (if is_end_of_file (has_next iter n) then OK else has_next iter n,
              S \<union> (\<Union>k \<in> {0 ..< n}. batch_positions p (next_batch iter k)))"
      using p2 by (rule impI)
    show "ParquetPositionDeleteBuilder_build p iter S = Some (st, S') \<and> is_end_of_file st \<longrightarrow>
      \<not> ok (init_status iter) \<and> st = init_status iter"
      using p3 by (rule impI)
    show "\<not> ok (new_random_access_file env) \<longrightarrow>
      ORCPositionDeleteBuilder_build p env S = Some (new_random_access_file env, S)"
      using o1 by (rule impI)
    show "ok (new_random_access_file env) \<and> create_reader_throws env = Some what \<longrightarrow>
      ORCPositionDeleteBuilder_build p env S =
        Some (InternalError
                (''ORCPositionDeleteBuilder::build create orc::Reader failed. reason = '' @ what),
              S)"
      using o2 by (rule impI)
    show "ok (new_random_access_file env) \<and> create_reader_throws env = None \<and>
        \<not> ok (set_timezone env) \<longrightarrow>
      ORCPositionDeleteBuilder_build p env S = Some (set_timezone env, S)"
      using o3 by (rule impI)
    show "ok (new_random_access_file env) \<and> create_reader_throws env = None \<and>
        ok (set_timezone env) \<and> \<not> ok (reader_init env) \<longrightarrow>
      ORCPositionDeleteBuilder_build p env S = Some (reader_init env, S)"
      using o4 by (rule impI)
    show "orc_setup_ok env \<and> (\<forall>k < m. chunk_read env k) \<and> \<not> ok (read_next env m) \<longrightarrow>
      ORCPositionDeleteBuilder_build p env S =
        Some (if is_end_of_file (read_next env m) then OK else read_next env m,
              S \<union> (\<Union>k \<in> {0 ..< m}. chunk_positions p (chunk_of (get_chunk env k))))"
      using o5 by (rule impI)
    show "orc_setup_ok env \<and> (\<forall>k < m. chunk_read env k) \<and> ok (read_next env m) \<and>
        get_chunk env m = Inl status \<longrightarrow>
      ORCPositionDeleteBuilder_build p env S =
        Some (status, S \<union> (\<Union>k \<in> {0 ..< m}. chunk_positions p (chunk_of (get_chunk env k))))"
      using o6 by (rule impI)
    show "ORCPositionDeleteBuilder_build p env S = Some (st, S') \<and> is_end_of_file st \<longrightarrow>
      st = new_random_access_file env \<or> st = set_timezone env \<or> st = reader_init env \<or>
      (\<exists>k. get_chunk env k = Inl st)"
      using o7 by (rule impI)
  qed
qed

theorem read_end_of_file_is_success_witness:
  "\<not> ok (EndOfFile ''empty file'') \<and>
   ParquetPositionDeleteBuilder_build ''a.parquet''
      (example_iterator\<lparr>init_status := EndOfFile ''empty file''\<rparr>) {1}
     = Some (EndOfFile ''empty file'', {1}) \<and>
   ok (init_status example_iterator) \<and> ok (has_next example_iterator 0) \<and>
   ok (has_next example_iterator 1) \<and> is_end_of_file (has_next example_iterator 2) \<and>
   ParquetPositionDeleteBuilder_build ''a.parquet'' example_iterator {1} = Some (OK, {1, 3, 5}) \<and>
   ORCPositionDeleteBuilder_build ''a.orc''
      (example_environment\<lparr>new_random_access_file := OtherError 2 ''no such file''\<rparr>) {1}
     = Some (OtherError 2 ''no such file'', {1}) \<and>
   ORCPositionDeleteBuilder_build ''a.orc''
      (example_environment\<lparr>create_reader_throws := Some ''bad footer''\<rparr>) {1}
     = Some (InternalError
               ''ORCPositionDeleteBuilder::build create orc::Reader failed. reason = bad footer'',
             {1}) \<and>
   ORCPositionDeleteBuilder_build ''a.orc''
      (example_environment\<lparr>set_timezone := InternalError ''unknown time zone''\<rparr>) {1}
     = Some (InternalError ''unknown time zone'', {1}) \<and>
   ORCPositionDeleteBuilder_build ''a.orc''
      (example_environment\<lparr>reader_init := EndOfFile ''empty file''\<rparr>) {1}
     = Some (EndOfFile ''empty file'', {1}) \<and>
   orc_setup_ok example_environment \<and> chunk_read example_environment 0 \<and>
   read_next example_environment 1 = OtherError 5 ''read failed'' \<and>
   ORCPositionDeleteBuilder_build ''a.orc'' example_environment {1}
     = Some (OtherError 5 ''read failed'', {1, 7}) \<and>
   ORCPositionDeleteBuilder_build ''a.orc''
      (example_environment\<lparr>read_next := replay [OK] (EndOfFile ''eof'')\<rparr>) {1}
     = Some (OK, {1, 7}) \<and>
   get_chunk example_environment 1 = Inl (EndOfFile ''chunk eof'') \<and>
   ORCPositionDeleteBuilder_build ''a.orc''
      (example_environment\<lparr>read_next := replay [] OK\<rparr>) {1}
     = Some (EndOfFile ''chunk eof'', {1, 7})"
proof -
  note ev = ParquetPositionDeleteBuilder_build_def ORCPositionDeleteBuilder_build_def
    parquet_loop.simps orc_loop.simps replay_def parquet_rows_def orc_rows_def
    example_iterator_def example_environment_def eval_nat_numeral insert_commute
  note hy = example_iterator_def example_environment_def replay_def orc_setup_ok_def
    chunk_read_def eval_nat_numeral less_Suc_eq all_conj_distrib
  let ?i1 = "example_iterator\<lparr>init_status := EndOfFile ''empty file''\<rparr>"
  let ?e1 = "example_environment\<lparr>new_random_access_file := OtherError 2 ''no such file''\<rparr>"
  let ?e2 = "example_environment\<lparr>create_reader_throws := Some ''bad footer''\<rparr>"
  let ?e3 = "example_environment\<lparr>set_timezone := InternalError ''unknown time zone''\<rparr>"
  let ?e4 = "example_environment\<lparr>reader_init := EndOfFile ''empty file''\<rparr>"
  let ?e5 = "example_environment\<lparr>read_next := replay [OK] (EndOfFile ''eof'')\<rparr>"
  let ?e6 = "example_environment\<lparr>read_next := replay [] OK\<rparr>"
  have p1: "ParquetPositionDeleteBuilder_build ''a.parquet'' ?i1 {1}
              = Some (EndOfFile ''empty file'', {1})"
    using read_end_of_file_is_success[where iter = ?i1 and p = "''a.parquet''" and S = "{1}"]
    by (simp add: example_iterator_def)
  have p3: "\<not> ok (init_status ?i1) \<and> EndOfFile ''empty file'' = init_status ?i1"
    using read_end_of_file_is_success[where iter = ?i1 and p = "''a.parquet''" and S = "{1}"
        and st = "EndOfFile ''empty file''" and S' = "{1}"] p1
    by simp
  have p2h: "ok (init_status example_iterator) \<and> (\<forall>k < 2. ok (has_next example_iterator k)) \<and>
             \<not> ok (has_next example_iterator 2)"
    by (simp add: hy)
  have p2run: "ParquetPositionDeleteBuilder_build ''a.parquet'' example_iterator {1}
                 = Some (OK, {1, 3, 5})"
    by (simp add: ev)
  have p2: "Some (OK, {1, 3, 5}) =
      Some (if is_end_of_file (has_next example_iterator 2) then OK else has_next example_iterator 2,
            {1} \<union> (\<Union>k \<in> {0 ..< 2}. batch_positions ''a.parquet'' (next_batch example_iterator k)))"
    using read_end_of_file_is_success[where iter = example_iterator and n = 2
        and p = "''a.parquet''" and S = "{1}"] p2h p2run
    by simp
  have o1: "ORCPositionDeleteBuilder_build ''a.orc'' ?e1 {1} = Some (OtherError 2 ''no such file'', {1})"
    using read_end_of_file_is_success[where env = ?e1 and p = "''a.orc''" and S = "{1}"]
    by (simp add: example_environment_def)
  have o2: "ORCPositionDeleteBuilder_build ''a.orc'' ?e2 {1}
     = Some (InternalError
               ''ORCPositionDeleteBuilder::build create orc::Reader failed. reason = bad footer'',
             {1})"
    using read_end_of_file_is_success[where env = ?e2 and p = "''a.orc''" and S = "{1}"
        and what = "''bad footer''"]
    by (simp add: example_environment_def)
  have o3: "ORCPositionDeleteBuilder_build ''a.orc'' ?e3 {1}
     = Some (InternalError ''unknown time zone'', {1})"
    using read_end_of_file_is_success[where env = ?e3 and p = "''a.orc''" and S = "{1}"]
    by (simp add: example_environment_def)
  have o4: "ORCPositionDeleteBuilder_build ''a.orc'' ?e4 {1} = Some (EndOfFile ''empty file'', {1})"
    using read_end_of_file_is_success[where env = ?e4 and p = "''a.orc''" and S = "{1}"]
    by (simp add: example_environment_def)
  have o5h: "orc_setup_ok example_environment \<and> (\<forall>k < 1. chunk_read example_environment k) \<and>
             \<not> ok (read_next example_environment 1)"
    by (simp add: hy)
  have o5run: "ORCPositionDeleteBuilder_build ''a.orc'' example_environment {1}
     = Some (OtherError 5 ''read failed'', {1, 7})"
    by (simp add: ev)
  have o5: "Some (OtherError 5 ''read failed'', {1, 7}) =
      Some (if is_end_of_file (read_next example_environment 1) then OK
            else read_next example_environment 1,
            {1} \<union> (\<Union>k \<in> {0 ..< 1}. chunk_positions ''a.orc'' (chunk_of (get_chunk example_environment k))))"
    using read_end_of_file_is_success[where env = example_environment and m = 1
        and p = "''a.orc''" and S = "{1}"] o5h o5run
    by simp
  have o5e: "ORCPositionDeleteBuilder_build ''a.orc'' ?e5 {1} = Some (OK, {1, 7})"
    by (simp add: ev)
  have o6h: "orc_setup_ok ?e6 \<and> (\<forall>k < 1. chunk_read ?e6 k) \<and> ok (read_next ?e6 1) \<and>
             get_chunk ?e6 1 = Inl (EndOfFile ''chunk eof'')"
    by (simp add: hy)
  have o6run: "ORCPositionDeleteBuilder_build ''a.orc'' ?e6 {1}
     = Some (EndOfFile ''chunk eof'', {1, 7})"
    by (simp add: ev)
  have o6: "Some (EndOfFile ''chunk eof'', {1, 7}) =
      Some (EndOfFile ''chunk eof'',
            {1} \<union> (\<Union>k \<in> {0 ..< 1}. chunk_positions ''a.orc'' (chunk_of (get_chunk ?e6 k))))"
    using read_end_of_file_is_success[where env = ?e6 and m = 1 and p = "''a.orc''" and S = "{1}"
        and status = "EndOfFile ''chunk eof''"] o6h o6run
    by simp
  have o7: "EndOfFile ''chunk eof'' = new_random_access_file ?e6 \<or>
            EndOfFile ''chunk eof'' = set_timezone ?e6 \<or>
            EndOfFile ''chunk eof'' = reader_init ?e6 \<or>
            (\<exists>k. get_chunk ?e6 k = Inl (EndOfFile ''chunk eof''))"
    using read_end_of_file_is_success[where env = ?e6 and p = "''a.orc''" and S = "{1}"
        and st = "EndOfFile ''chunk eof''" and S' = "{1, 7}"] o6run
    by simp
  have rest: "\<not> ok (EndOfFile ''empty file'')" "ok (init_status example_iterator)"
      "ok (has_next example_iterator 0)" "ok (has_next example_iterator 1)"
      "is_end_of_file (has_next example_iterator 2)"
      "orc_setup_ok example_environment" "chunk_read example_environment 0"
      "read_next example_environment 1 = OtherError 5 ''read failed''"
      "get_chunk example_environment 1 = Inl (EndOfFile ''chunk eof'')"
    by (simp_all add: hy)
  from rest p1 p2run o1 o2 o3 o4 o5run o5e o6run show ?thesis
    by (intro conjI)
qed

text \<open>
  Claim C10. A position-delete build returns OK exactly when the steps before the loop
  succeed and the reader, after some number \<open>n\<close> of batches, ends the read; the set
  \<^verbatim>\<open>need_skip_rowids\<close> is then the set before the call together with the \<^verbatim>\<open>pos\<close> values of
  those rows of the \<open>n\<close> batches whose \<^verbatim>\<open>file_path\<close> equals \<^verbatim>\<open>_datafile_path\<close>, and nothing
  else: rows that refer to another data file add nothing. The Parquet read ends with the
  end-of-file status of \<^verbatim>\<open>has_next\<close>, the ORC read with that of \<^verbatim>\<open>read_next\<close> (or, should
  \<^verbatim>\<open>get_chunk\<close> ever hand over an OK status in place of a chunk, with that).
\<close>

theorem build_adds_positions_of_datafile:
  "(ok (init_status iter) \<and> (\<forall>k < n. ok (has_next iter k)) \<and> is_end_of_file (has_next iter n) \<longrightarrow>
      ParquetPositionDeleteBuilder_build p iter S =
        Some (OK, S \<union> (\<Union>k \<in> {0 ..< n}. batch_positions p (next_batch iter k)))) \<and>
   (ParquetPositionDeleteBuilder_build p iter S = Some (OK, S') \<longrightarrow>
      ok (init_status iter) \<and>
      (\<exists>j. (\<forall>k < j. ok (has_next iter k)) \<and> is_end_of_file (has_next iter j) \<and>
           S' = S \<union> (\<Union>k \<in> {0 ..< j}. batch_positions p (next_batch iter k)))) \<and>
   (orc_setup_ok env \<and> (\<forall>k < m. chunk_read env k) \<and> is_end_of_file (read_next env m) \<longrightarrow>
      ORCPositionDeleteBuilder_build p env S =
        Some (OK, S \<union> (\<Union>k \<in> {0 ..< m}. chunk_positions p (chunk_of (get_chunk env k))))) \<and>
   (ORCPositionDeleteBuilder_build p env S = Some (OK, S') \<longrightarrow>
      orc_setup_ok env \<and>
      (\<exists>j. (\<forall>k < j. chunk_read env k) \<and>
           (is_end_of_file (read_next env j) \<or> ok (read_next env j) \<and> get_chunk env j = Inl OK) \<and>
           S' = S \<union> (\<Union>k \<in> {0 ..< j}. chunk_positions p (chunk_of (get_chunk env k)))))"
proof -
  have c1: "ParquetPositionDeleteBuilder_build p iter S =
        Some (OK, S \<union> (\<Union>k \<in> {0 ..< n}. batch_positions p (next_batch iter k)))"
    if "ok (init_status iter)" "\<forall>k < n. ok (has_next iter k)" "is_end_of_file (has_next iter n)"
  proof -
    from that(3) have "\<not> ok (has_next iter n)" by (rule is_end_of_file_not_ok)
    from parquet_build_runs[OF that(1,2) this, of p S] that(3) show ?thesis by simp
  qed
  have c2: "ok (init_status iter) \<and>
      (\<exists>j. (\<forall>k < j. ok (has_next iter k)) \<and> is_end_of_file (has_next iter j) \<and>
           S' = S \<union> (\<Union>k \<in> {0 ..< j}. batch_positions p (next_batch iter k)))"
    if b: "ParquetPositionDeleteBuilder_build p iter S = Some (OK, S')"
  proof -
    have i: "ok (init_status iter)"
    proof (rule ccontr)
      assume "\<not> ok (init_status iter)"
      from parquet_build_init_fails[OF this, of p S] b this show False by simp
    qed
    from parquet_build_SomeD[OF i b] obtain j where j:
        "\<forall>k < j. ok (has_next iter k)" "\<not> ok (has_next iter j)"
        "OK = (if is_end_of_file (has_next iter j) then OK else has_next iter j)"
        "S' = S \<union> (\<Union>k \<in> {0 ..< j}. batch_positions p (next_batch iter k))"
      by blast
    from j(2,3) have "is_end_of_file (has_next iter j)"
      by (cases "is_end_of_file (has_next iter j)") simp_all
    with i j(1,4) show ?thesis by blast
  qed
  have c3: "ORCPositionDeleteBuilder_build p env S =
        Some (OK, S \<union> (\<Union>k \<in> {0 ..< m}. chunk_positions p (chunk_of (get_chunk env k))))"
    if "orc_setup_ok env" "\<forall>k < m. chunk_read env k" "is_end_of_file (read_next env m)"
  proof -
    from that(3) have "\<not> chunk_read env m" "orc_exit_status env m = OK"
      by (simp_all add: chunk_read_def orc_exit_status_def is_end_of_file_not_ok)
    with orc_build_runs[OF that(1,2), of p S] show ?thesis by simp
  qed
  have c4: "orc_setup_ok env \<and>
      (\<exists>j. (\<forall>k < j. chunk_read env k) \<and>
           (is_end_of_file (read_next env j) \<or> ok (read_next env j) \<and> get_chunk env j = Inl OK) \<and>
           S' = S \<union> (\<Union>k \<in> {0 ..< j}. chunk_positions p (chunk_of (get_chunk env k))))"
    if b: "ORCPositionDeleteBuilder_build p env S = Some (OK, S')"
  proof -
    have sok: "orc_setup_ok env"
    proof (rule ccontr)
      assume "\<not> orc_setup_ok env"
      from orc_build_setup_fails[OF this b] show False by simp
    qed
    from orc_build_SomeD[OF sok b] obtain j where j: "\<forall>k < j. chunk_read env k"
        "OK = orc_exit_status env j"
        "S' = S \<union> (\<Union>k \<in> {0 ..< j}. chunk_positions p (chunk_of (get_chunk env k)))"
      by blast
    have "is_end_of_file (read_next env j) \<or> ok (read_next env j) \<and> get_chunk env j = Inl OK"
    proof (cases "is_end_of_file (read_next env j)")
      case True
      then show ?thesis by simp
    next
      case False
      with j(2) have okr: "ok (read_next env j)"
        by (cases "ok (read_next env j)") (simp_all add: orc_exit_status_def)
      with False j(2) have "get_chunk env j = Inl OK"
        by (cases "get_chunk env j") (simp_all add: orc_exit_status_def schema_error_def)
      with okr show ?thesis by simp
    qed
    with sok j(1,3) show ?thesis by blast
  qed
  show ?thesis
  proof (intro conjI)
    show "ok (init_status iter) \<and> (\<forall>k < n. ok (has_next iter k)) \<and> is_end_of_file (has_next iter n) \<longrightarrow>
      ParquetPositionDeleteBuilder_build p iter S =
        Some (OK, S \<union> (\<Union>k \<in> {0 ..< n}. batch_positions p (next_batch iter k)))"
      using c1 by blast
    show "ParquetPositionDeleteBuilder_build p iter S = Some (OK, S') \<longrightarrow>
      ok (init_status iter) \<and>
      (\<exists>j. (\<forall>k < j. ok (has_next iter k)) \<and> is_end_of_file (has_next iter j) \<and>
           S' = S \<union> (\<Union>k \<in> {0 ..< j}. batch_positions p (next_batch iter k)))"
      using c2 by (rule impI)
    show "orc_setup_ok env \<and> (\<forall>k < m. chunk_read env k) \<and> is_end_of_file (read_next env m) \<longrightarrow>
      ORCPositionDeleteBuilder_build p env S =
        Some (OK, S \<union> (\<Union>k \<in> {0 ..< m}. chunk_positions p (chunk_of (get_chunk env k))))"
      using c3 by blast
    show "ORCPositionDeleteBuilder_build p env S = Some (OK, S') \<longrightarrow>
      orc_setup_ok env \<and>
      (\<exists>j. (\<forall>k < j. chunk_read env k) \<and>
           (is_end_of_file (read_next env j) \<or> ok (read_next env j) \<and> get_chunk env j = Inl OK) \<and>
           S' = S \<union> (\<Union>k \<in> {0 ..< j}. chunk_positions p (chunk_of (get_chunk env k))))"
      using c4 by (rule impI)
  qed
qed

theorem build_adds_positions_of_datafile_witness:
  "ok (init_status
        \<lparr>init_status = OK, has_next = replay [OK, OK] (EndOfFile ''eof''),
          next_batch = replay
            [\<lparr>num_rows = 2, file_path_array = [''a.parquet'', ''b.parquet''], pos_array = [3, 9]\<rparr>,
             \<lparr>num_rows = 1, file_path_array = [''a.parquet''], pos_array = [5]\<rparr>]
            \<lparr>num_rows = 0, file_path_array = [], pos_array = []\<rparr>\<rparr>) \<and>
   ok (replay [OK, OK] (EndOfFile ''eof'') 0) \<and> ok (replay [OK, OK] (EndOfFile ''eof'') 1) \<and>
   is_end_of_file (replay [OK, OK] (EndOfFile ''eof'') 2) \<and>
   ParquetPositionDeleteBuilder_build ''a.parquet''
      \<lparr>init_status = OK, has_next = replay [OK, OK] (EndOfFile ''eof''),
        next_batch = replay
          [\<lparr>num_rows = 2, file_path_array = [''a.parquet'', ''b.parquet''], pos_array = [3, 9]\<rparr>,
           \<lparr>num_rows = 1, file_path_array = [''a.parquet''], pos_array = [5]\<rparr>]
          \<lparr>num_rows = 0, file_path_array = [], pos_array = []\<rparr>\<rparr>
      {1}
    = Some (OK, {1, 3, 5}) \<and>
   {1} \<union> (\<Union>k \<in> {0 ..< 2}. batch_positions ''a.parquet''
        (replay
          [\<lparr>num_rows = 2, file_path_array = [''a.parquet'', ''b.parquet''], pos_array = [3, 9]\<rparr>,
           \<lparr>num_rows = 1, file_path_array = [''a.parquet''], pos_array = [5]\<rparr>]
          \<lparr>num_rows = 0, file_path_array = [], pos_array = []\<rparr> k))
    = {1, 3, 5} \<and>
   (9 :: int64_t) \<notin> {1, 3, 5} \<and>
   orc_setup_ok
      \<lparr>new_random_access_file = OK, create_reader_throws = None, set_timezone = OK, reader_init = OK,
        read_next = replay [OK] (EndOfFile ''eof''),
        get_chunk = replay
          [Inr \<lparr>chunk_num_rows = 2, slot_ids = {k_delete_file_path_id, k_delete_file_pos_id},
                file_path_col = [''b.orc'', ''a.orc''], position_col = [4, 7]\<rparr>]
          (Inl (InternalError ''no chunk''))\<rparr> \<and>
   chunk_read
      \<lparr>new_random_access_file = OK, create_reader_throws = None, set_timezone = OK, reader_init = OK,
        read_next = replay [OK] (EndOfFile ''eof''),
        get_chunk = replay
          [Inr \<lparr>chunk_num_rows = 2, slot_ids = {k_delete_file_path_id, k_delete_file_pos_id},
                file_path_col = [''b.orc'', ''a.orc''], position_col = [4, 7]\<rparr>]
          (Inl (InternalError ''no chunk''))\<rparr> 0 \<and>
   is_end_of_file (replay [OK] (EndOfFile ''eof'') 1) \<and>
   ORCPositionDeleteBuilder_build ''a.orc''
      \<lparr>new_random_access_file = OK, create_reader_throws = None, set_timezone = OK, reader_init = OK,
        read_next = replay [OK] (EndOfFile ''eof''),
        get_chunk = replay
          [Inr \<lparr>chunk_num_rows = 2, slot_ids = {k_delete_file_path_id, k_delete_file_pos_id},
                file_path_col = [''b.orc'', ''a.orc''], position_col = [4, 7]\<rparr>]
          (Inl (InternalError ''no chunk''))\<rparr>
      {1}
    = Some (OK, {1, 7}) \<and>
   {1} \<union> (\<Union>k \<in> {0 ..< 1}. chunk_positions ''a.orc''
        (chunk_of (replay
          [Inr \<lparr>chunk_num_rows = 2, slot_ids = {k_delete_file_path_id, k_delete_file_pos_id},
                file_path_col = [''b.orc'', ''a.orc''], position_col = [4, 7]\<rparr>]
          (Inl (InternalError ''no chunk'')) k)))
    = {1, 7} \<and>
   (4 :: int64_t) \<notin> {1, 7}"
proof -
  let ?iter = "\<lparr>init_status = OK, has_next = replay [OK, OK] (EndOfFile ''eof''),
          next_batch = replay
            [\<lparr>num_rows = 2, file_path_array = [''a.parquet'', ''b.parquet''], pos_array = [3, 9]\<rparr>,
             \<lparr>num_rows = 1, file_path_array = [''a.parquet''], pos_array = [5]\<rparr>]
            \<lparr>num_rows = 0, file_path_array = [], pos_array = []\<rparr>\<rparr>"
  let ?env = "\<lparr>new_random_access_file = OK, create_reader_throws = None, set_timezone = OK,
        reader_init = OK, read_next = replay [OK] (EndOfFile ''eof''),
        get_chunk = replay
          [Inr \<lparr>chunk_num_rows = 2, slot_ids = {k_delete_file_path_id, k_delete_file_pos_id},
                file_path_col = [''b.orc'', ''a.orc''], position_col = [4, 7]\<rparr>]
          (Inl (InternalError ''no chunk''))\<rparr>"
  have prun: "ParquetPositionDeleteBuilder_build ''a.parquet'' ?iter {1} = Some (OK, {1, 3, 5})"
    by (simp add: ParquetPositionDeleteBuilder_build_def parquet_loop.simps replay_def
          parquet_rows_def eval_nat_numeral insert_commute)
  have orun: "ORCPositionDeleteBuilder_build ''a.orc'' ?env {1} = Some (OK, {1, 7})"
    by (simp add: ORCPositionDeleteBuilder_build_def orc_loop.simps replay_def
          orc_rows_def eval_nat_numeral insert_commute)
  have ph: "ok (init_status ?iter) \<and> (\<forall>k < 2. ok (has_next ?iter k)) \<and>
            is_end_of_file (has_next ?iter 2)"
    by (simp add: replay_def eval_nat_numeral less_Suc_eq all_conj_distrib)
  have oh: "orc_setup_ok ?env \<and> (\<forall>k < 1. chunk_read ?env k) \<and> is_end_of_file (read_next ?env 1)"
    by (simp add: orc_setup_ok_def chunk_read_def replay_def)
  from build_adds_positions_of_datafile
         [where iter = ?iter and n = 2 and p = "''a.parquet''" and S = "{1}"] ph
  have "ParquetPositionDeleteBuilder_build ''a.parquet'' ?iter {1} =
          Some (OK, {1} \<union> (\<Union>k \<in> {0 ..< 2}. batch_positions ''a.parquet'' (next_batch ?iter k)))"
    by blast
  with prun have pset: "{1} \<union> (\<Union>k \<in> {0 ..< 2}. batch_positions ''a.parquet'' (next_batch ?iter k))
                  = {1, 3, 5}"
    by simp
  from build_adds_positions_of_datafile
         [where env = ?env and m = 1 and p = "''a.orc''" and S = "{1}"] oh
  have "ORCPositionDeleteBuilder_build ''a.orc'' ?env {1} =
          Some (OK, {1} \<union> (\<Union>k \<in> {0 ..< 1}. chunk_positions ''a.orc'' (chunk_of (get_chunk ?env k))))"
    by blast
  with orun have oset: "{1} \<union> (\<Union>k \<in> {0 ..< 1}. chunk_positions ''a.orc'' (chunk_of (get_chunk ?env k)))
                  = {1, 7}"
    by simp
  have rest: "ok (init_status ?iter)" "ok (replay [OK, OK] (EndOfFile ''eof'') 0)"
      "ok (replay [OK, OK] (EndOfFile ''eof'') 1)"
      "is_end_of_file (replay [OK, OK] (EndOfFile ''eof'') 2)"
      "(9 :: int64_t) \<notin> {1, 3, 5}" "orc_setup_ok ?env" "chunk_read ?env 0"
      "is_end_of_file (replay [OK] (EndOfFile ''eof'') 1)" "(4 :: int64_t) \<notin> {1, 7}"
    by (simp_all add: replay_def orc_setup_ok_def chunk_read_def)
  from pset have pset': "{1} \<union> (\<Union>k \<in> {0 ..< 2}. batch_positions ''a.parquet''
        (replay
          [\<lparr>num_rows = 2, file_path_array = [''a.parquet'', ''b.parquet''], pos_array = [3, 9]\<rparr>,
           \<lparr>num_rows = 1, file_path_array = [''a.parquet''], pos_array = [5]\<rparr>]
          \<lparr>num_rows = 0, file_path_array = [], pos_array = []\<rparr> k)) = {1, 3, 5}"
    by (simp only: IcebergDeleteFileIterator.simps)
  from oset have oset': "{1} \<union> (\<Union>k \<in> {0 ..< 1}. chunk_positions ''a.orc''
        (chunk_of (replay
          [Inr \<lparr>chunk_num_rows = 2, slot_ids = {k_delete_file_path_id, k_delete_file_pos_id},
                file_path_col = [''b.orc'', ''a.orc''], position_col = [4, 7]\<rparr>]
          (Inl (InternalError ''no chunk'')) k))) = {1, 7}"
    by (simp only: OrcEnvironment.simps)
  from rest prun orun pset' oset' show ?thesis
    by (intro conjI)
qed

section \<open>\<^verbatim>\<open>JsonEach::process\<close>\<close>

declare decimal.simps [simp del]

lemma object_loop_effect:
  "key_column_ptr (object_loop ms v) = key_column_ptr v @ map fst ms \<and>
   value_column_ptr (object_loop ms v) = value_column_ptr v @ map snd ms \<and>
   offset_column (object_loop ms v) = offset_column v \<and>
   offset (object_loop ms v) = offset v + of_nat (length ms)"
  by (induction ms v rule: object_loop.induct) simp_all

lemma array_loop_effect:
  "length (key_column_ptr (array_loop es i v)) = length (key_column_ptr v) + length es \<and>
   value_column_ptr (array_loop es i v) = value_column_ptr v @ es \<and>
   offset_column (array_loop es i v) = offset_column v \<and>
   offset (array_loop es i v) = offset v + of_nat (length es)"
  by (induction es i v rule: array_loop.induct) simp_all

lemma in_step_grow:
  assumes "in_step rows v"
    and len: "length (key_column_ptr v') = length (key_column_ptr v) + c"
             "length (value_column_ptr v') = length (value_column_ptr v) + c"
    and off: "offset v' = offset v + of_nat c"
    and col: "offset_column v' = offset_column v"
  shows "in_step (Suc rows) (v'\<lparr>offset_column := offset_column v' @ [offset v']\<rparr>)"
proof -
  from assms(1) obtain ps where ps: "offset_column v = map of_nat ps" "sorted ps"
      "length ps = rows + 1" "hd ps = 0" "last ps = length (key_column_ptr v)"
    and eq: "length (key_column_ptr v) = length (value_column_ptr v)"
    and cnt: "offset v = of_nat (length (key_column_ptr v))"
    unfolding in_step_def by blast
  let ?n = "length (key_column_ptr v')"
  let ?qs = "ps @ [?n]"
  from ps(3) have ne: "ps \<noteq> []" by auto
  have le: "\<forall>x \<in> set ps. x \<le> ?n"
  proof
    fix x assume "x \<in> set ps"
    with ps(2) ne have "x \<le> last ps"
      by (metis in_set_conv_nth last_conv_nth sorted_nth_mono Suc_pred le_refl length_greater_0_conv
            less_Suc_eq_le diff_Suc_1)
    with ps(5) len(1) show "x \<le> ?n" by simp
  qed
  have off': "offset v' = of_nat ?n"
    using off cnt len(1) by simp
  have "offset_column v' @ [offset v'] = map of_nat ?qs"
    using col ps(1) off' by simp
  moreover have "sorted ?qs"
    using ps(2) le by (simp add: sorted_append)
  moreover have "length ?qs = Suc rows + 1" "hd ?qs = 0" "last ?qs = ?n"
    using ps(3,4) ne by simp_all
  ultimately show ?thesis
    unfolding in_step_def using len eq off'
    by (auto intro!: exI[of _ ?qs])
qed

lemma in_step_process_row:
  assumes "in_step rows v"
  shows "in_step (Suc rows) (process_row json v)"
proof (cases json)
  case (JsonObject ms)
  have "in_step (Suc rows)
          ((object_loop ms v)\<lparr>offset_column := offset_column (object_loop ms v) @ [offset (object_loop ms v)]\<rparr>)"
    by (rule in_step_grow[OF assms, where c = "length ms"]) (simp_all add: object_loop_effect)
  with JsonObject show ?thesis by (simp add: process_row_def Let_def)
next
  case (JsonArray es)
  have "in_step (Suc rows)
          ((array_loop es 0 v)\<lparr>offset_column := offset_column (array_loop es 0 v) @ [offset (array_loop es 0 v)]\<rparr>)"
    by (rule in_step_grow[OF assms, where c = "length es"]) (simp_all add: array_loop_effect)
  with JsonArray show ?thesis by (simp add: process_row_def Let_def)
next
  case (JsonString s)
  have "in_step (Suc rows) (v\<lparr>offset_column := offset_column v @ [offset v]\<rparr>)"
    by (rule in_step_grow[OF assms, where c = 0]) simp_all
  with JsonString show ?thesis by (simp add: process_row_def Let_def)
next
  case (JsonNumber i)
  have "in_step (Suc rows) (v\<lparr>offset_column := offset_column v @ [offset v]\<rparr>)"
    by (rule in_step_grow[OF assms, where c = 0]) simp_all
  with JsonNumber show ?thesis by (simp add: process_row_def Let_def)
next
  case (JsonBool b)
  have "in_step (Suc rows) (v\<lparr>offset_column := offset_column v @ [offset v]\<rparr>)"
    by (rule in_step_grow[OF assms, where c = 0]) simp_all
  with JsonBool show ?thesis by (simp add: process_row_def Let_def)
next
  case JsonNull
  have "in_step (Suc rows) (v\<lparr>offset_column := offset_column v @ [offset v]\<rparr>)"
    by (rule in_step_grow[OF assms, where c = 0]) simp_all
  with JsonNull show ?thesis by (simp add: process_row_def Let_def)
qed

lemma in_step_fold:
  "in_step rows v \<Longrightarrow> in_step (rows + length js) (fold process_row js v)"
proof (induction js arbitrary: rows v)
  case Nil
  then show ?case by simp
next
  case (Cons j js)
  from Cons.IH[OF in_step_process_row[OF Cons.prems, of j]] show ?case by simp
qed

lemma in_step_initial:
  "in_step 0 \<lparr>key_column_ptr = [], value_column_ptr = [], offset_column = [0], offset = 0\<rparr>"
  unfolding in_step_def by (auto intro!: exI[of _ "[0]"])

lemma in_step_process:
  "in_step (num_input_rows columns)
     (fold process_row (if columns \<noteq> [] then columns ! 0 else [])
        \<lparr>key_column_ptr = [], value_column_ptr = [], offset_column = [0], offset = 0\<rparr>)"
proof (cases "columns = []")
  case True
  with in_step_initial show ?thesis by (simp add: num_input_rows_def)
next
  case False
  with in_step_fold[OF in_step_initial, of "columns ! 0"] show ?thesis
    by (simp add: num_input_rows_def)
qed

lemma of_nat32_le_iff:
  "i < 2 ^ 32 \<Longrightarrow> j < 2 ^ 32 \<Longrightarrow> (of_nat i :: uint32_t) \<le> of_nat j \<longleftrightarrow> i \<le> j"
  by (simp add: word_of_nat_less_eq_iff take_bit_nat_eq_self)

lemma sorted_map_of_nat32:
  assumes "sorted ps" and "\<forall>x \<in> set ps. x < 2 ^ 32"
  shows "sorted (map (of_nat :: nat \<Rightarrow> uint32_t) ps)"
  using assms
proof (induction ps)
  case Nil
  then show ?case by simp
next
  case (Cons x xs)
  then show ?case by (auto simp: of_nat32_le_iff)
qed

lemma in_step_result:
  assumes "in_step rows v"
  shows "length (key_column_ptr v) = length (value_column_ptr v)"
    and "length (offset_column v) = rows + 1"
    and "offset_column v ! 0 = 0"
    and "length (key_column_ptr v) \<le> INT_MAX \<Longrightarrow> sorted (offset_column v)"
    and "length (key_column_ptr v) \<le> INT_MAX \<Longrightarrow>
           unat (last (offset_column v)) = length (key_column_ptr v)"
proof -
  from assms obtain ps where ps: "offset_column v = map of_nat ps" "sorted ps"
      "length ps = rows + 1" "hd ps = 0" "last ps = length (key_column_ptr v)"
    and eq: "length (key_column_ptr v) = length (value_column_ptr v)"
    unfolding in_step_def by blast
  from ps(3) have ne: "ps \<noteq> []" by auto
  show "length (key_column_ptr v) = length (value_column_ptr v)" by (rule eq)
  show "length (offset_column v) = rows + 1" using ps(1,3) by simp
  from ne ps(4) have "ps ! 0 = 0" by (simp add: hd_conv_nth)
  with ne ps(1) show "offset_column v ! 0 = 0" by simp
  {
    assume bound: "length (key_column_ptr v) \<le> INT_MAX"
    then have small: "length (key_column_ptr v) < 2 ^ 32" by (simp add: INT_MAX_def)
    have "\<forall>x \<in> set ps. x \<le> last ps"
    proof
      fix x assume "x \<in> set ps"
      then obtain i where i: "i < length ps" "ps ! i = x" by (auto simp: in_set_conv_nth)
      with ps(2) ne have "ps ! i \<le> ps ! (length ps - 1)"
        by (intro sorted_nth_mono) auto
      with i ne show "x \<le> last ps" by (simp add: last_conv_nth)
    qed
    with ps(5) small have all: "\<forall>x \<in> set ps. x < 2 ^ 32" by auto
    from sorted_map_of_nat32[OF ps(2) all] ps(1) show "sorted (offset_column v)" by simp
    from ne ps(1) have "last (offset_column v) = of_nat (last ps)" by (simp add: last_map)
    with ps(5) small show "unat (last (offset_column v)) = length (key_column_ptr v)"
      by (simp add: unat_of_nat32)
  }
qed

text \<open>
  Claim C9. For every input column of \<open>n\<close> JSON rows (and for no input column, \<open>n = 0\<close>),
  \<^verbatim>\<open>JsonEach::process\<close> returns a key column and a value column of equal length and an
  offset column of \<open>n + 1\<close> entries that starts at \<open>0\<close>, and sets \<^verbatim>\<open>eos\<close> to true. While
  the number of output rows does not exceed \<^verbatim>\<open>INT_MAX\<close>, the range of the \<^verbatim>\<open>int\<close> counter
  \<^verbatim>\<open>offset\<close>, the offset column is non-decreasing and its last entry is the number of
  output rows.
\<close>

theorem json_each_offsets:
  "length (result_keys (JsonEach_process columns)) = length (result_values (JsonEach_process columns)) \<and>
   length (result_offsets (JsonEach_process columns)) = num_input_rows columns + 1 \<and>
   result_offsets (JsonEach_process columns) ! 0 = 0 \<and>
   eos (JsonEach_process columns) \<and>
   (length (result_keys (JsonEach_process columns)) \<le> INT_MAX \<longrightarrow>
      sorted (result_offsets (JsonEach_process columns)) \<and>
      unat (last (result_offsets (JsonEach_process columns)))
        = length (result_keys (JsonEach_process columns)))"
  using in_step_result[OF in_step_process[of columns]]
  by (simp add: JsonEach_process_def Let_def)

theorem json_each_offsets_witness:
  "JsonEach_process [[JsonObject [(''a'', JsonNumber 1), (''b'', JsonNull)], JsonNumber 7,
          JsonArray [JsonBool True, JsonString ''x'']]]
   = \<lparr>result_keys = [''a'', ''b'', ''0'', ''1''],
      result_values = [JsonNumber 1, JsonNull, JsonBool True, JsonString ''x''],
      result_offsets = [0, 2, 2, 4], eos = True, state_offset = 4\<rparr> \<and>
   length [''a'', ''b'', ''0'', ''1''] \<le> INT_MAX \<and>
   num_input_rows [[JsonObject [(''a'', JsonNumber 1), (''b'', JsonNull)], JsonNumber 7,
          JsonArray [JsonBool True, JsonString ''x'']]] = 3 \<and>
   sorted [0, 2, 2, 4 :: uint32_t] \<and>
   unat (last [0, 2, 2, 4 :: uint32_t]) = length [''a'', ''b'', ''0'', ''1'']"
proof -
  let ?cols = "[[JsonObject [(''a'', JsonNumber 1), (''b'', JsonNull)], JsonNumber 7,
          JsonArray [JsonBool True, JsonString ''x'']]]"
  have run: "JsonEach_process ?cols
     = \<lparr>result_keys = [''a'', ''b'', ''0'', ''1''],
        result_values = [JsonNumber 1, JsonNull, JsonBool True, JsonString ''x''],
        result_offsets = [0, 2, 2, 4], eos = True, state_offset = 4\<rparr>"
    by (simp add: JsonEach_process_def process_row_def to_string_def decimal.simps)
  have small: "length (result_keys (JsonEach_process ?cols)) \<le> INT_MAX"
    by (simp add: run INT_MAX_def)
  from json_each_offsets[of ?cols] small
  have "sorted (result_offsets (JsonEach_process ?cols)) \<and>
      unat (last (result_offsets (JsonEach_process ?cols)))
        = length (result_keys (JsonEach_process ?cols))"
    by blast
  then have "sorted [0, 2, 2, 4 :: uint32_t] \<and>
      unat (last [0, 2, 2, 4 :: uint32_t]) = length [''a'', ''b'', ''0'', ''1'']"
    by (simp only: run JsonEachOutput.simps)
  moreover have "length [''a'', ''b'', ''0'', ''1''] \<le> INT_MAX"
    by (simp add: INT_MAX_def)
  moreover have "num_input_rows ?cols = 3"
    by (simp add: num_input_rows_def)
  ultimately show ?thesis using run by blast
qed

section \<open>One-shot loading\<close>

lemma load_twice:
  "load do_load (snd (load do_load self)) = (fst (load do_load self), snd (load do_load self))"
  by (simp add: load_def)

lemma race_inv_start: "race_inv do_load self (race_start self)"
  by (simp add: race_inv_def race_start_def)

lemma race_inv_step:
  assumes "race_step do_load c c'" and "race_inv do_load self c"
  shows "race_inv do_load self c'"
  using assms
proof (cases rule: race_step.cases)
  case (enter t)
  with assms(2) show ?thesis
    by (auto simp: race_inv_def)
next
  case (perform t)
  show ?thesis
  proof (cases "load_once_flag (inst c)")
    case NotCalled
    with assms(2) have "callers c t = Calling" by (simp add: race_inv_def)
    with perform show ?thesis by simp
  next
    case InProgress
    with assms(2) obtain p where p: "inst c = self\<lparr>load_once_flag := InProgress\<rparr>"
        "loads_performed c = 0" "callers c p = Performing" "\<forall>u. u \<noteq> p \<longrightarrow> callers c u = Calling"
      by (auto simp: race_inv_def)
    from p(4) perform(2) have "t = p" by (cases "t = p") auto
    with p(4) have others: "\<forall>u. u \<noteq> t \<longrightarrow> callers c u = Calling" by simp
    from perform(1) p(1,2) others show ?thesis
      by (simp add: race_inv_def load_def)
  next
    case Completed
    with assms(2) have "callers c t = Calling \<or> callers c t = Passed \<or>
        callers c t = Returned (fst (load do_load (self\<lparr>load_once_flag := NotCalled\<rparr>)))"
      by (simp add: race_inv_def)
    with perform show ?thesis by auto
  qed
next
  case (pass t)
  with assms(2) show ?thesis
    by (auto simp: race_inv_def)
next
  case (return t)
  show ?thesis
  proof (cases "load_once_flag (inst c)")
    case NotCalled
    with assms(2) have "callers c t = Calling" by (simp add: race_inv_def)
    with return show ?thesis by simp
  next
    case InProgress
    with assms(2) obtain p where "callers c p = Performing" "\<forall>u. u \<noteq> p \<longrightarrow> callers c u = Calling"
      by (auto simp: race_inv_def)
    then have "callers c t = Performing \<or> callers c t = Calling" by (cases "t = p") auto
    with return show ?thesis by auto
  next
    case Completed
    with assms(2) return show ?thesis
      by (simp add: race_inv_def load_def)
  qed
qed

lemma race_inv_reachable:
  "(race_step do_load)\<^sup>*\<^sup>* (race_start self) c \<Longrightarrow> race_inv do_load self c"
  by (induction rule: rtranclp_induct) (auto intro: race_inv_start race_inv_step)

lemma race_progress:
  assumes "race_inv do_load self c" and "\<forall>s. callers c t \<noteq> Returned s"
  shows "\<exists>c'. race_step do_load c c'"
proof (cases "load_once_flag (inst c)")
  case NotCalled
  with assms(1) have "callers c t = Calling" by (simp add: race_inv_def)
  from race_step.enter[OF this NotCalled] show ?thesis by blast
next
  case InProgress
  with assms(1) obtain p where "callers c p = Performing" by (auto simp: race_inv_def)
  from race_step.perform[OF this] show ?thesis by blast
next
  case Completed
  with assms have "callers c t = Calling \<or> callers c t = Passed" by (auto simp: race_inv_def)
  then show ?thesis
  proof
    assume "callers c t = Calling"
    from race_step.pass[OF this Completed] show ?thesis by blast
  next
    assume "callers c t = Passed"
    from race_step.return[OF this] show ?thesis by blast
  qed
qed

text \<open>
  Claim C2. Calling \<^verbatim>\<open>load\<close> a second time returns the status that the first call
  recorded, whatever it is, and leaves the instance as the first call left it. When
  callers race from a fresh instance, in every configuration they reach at most one load
  has been performed; a caller that has returned has returned the status, and left the
  instance, that a lone call gives, so all returned callers hold the same result of the
  one load performed; and as long as some caller has not returned, some caller can step.
\<close>

theorem load_runs_once:
  "load do_load (snd (load do_load self)) = (fst (load do_load self), snd (load do_load self)) \<and>
   ((race_step do_load)\<^sup>*\<^sup>* (race_start self) c \<longrightarrow>
      loads_performed c \<le> 1 \<and>
      (\<forall>t s. callers c t = Returned s \<longrightarrow>
         loads_performed c = 1 \<and>
         s = fst (load do_load (self\<lparr>load_once_flag := NotCalled\<rparr>)) \<and>
         inst c = snd (load do_load (self\<lparr>load_once_flag := NotCalled\<rparr>))) \<and>
      ((\<exists>t. \<forall>s. callers c t \<noteq> Returned s) \<longrightarrow> (\<exists>c'. race_step do_load c c')))"
proof (intro conjI impI)
  show "load do_load (snd (load do_load self)) = (fst (load do_load self), snd (load do_load self))"
    by (rule load_twice)
next
  assume "(race_step do_load)\<^sup>*\<^sup>* (race_start self) c"
  then have inv: "race_inv do_load self c" by (rule race_inv_reachable)
  then show "loads_performed c \<le> 1"
    by (cases "load_once_flag (inst c)") (simp_all add: race_inv_def)
next
  assume "(race_step do_load)\<^sup>*\<^sup>* (race_start self) c"
  then have inv: "race_inv do_load self c" by (rule race_inv_reachable)
  show "\<forall>t s. callers c t = Returned s \<longrightarrow>
         loads_performed c = 1 \<and>
         s = fst (load do_load (self\<lparr>load_once_flag := NotCalled\<rparr>)) \<and>
         inst c = snd (load do_load (self\<lparr>load_once_flag := NotCalled\<rparr>))"
  proof (intro allI impI)
    fix t s
    assume r: "callers c t = Returned s"
    show "loads_performed c = 1 \<and>
         s = fst (load do_load (self\<lparr>load_once_flag := NotCalled\<rparr>)) \<and>
         inst c = snd (load do_load (self\<lparr>load_once_flag := NotCalled\<rparr>))"
    proof (cases "load_once_flag (inst c)")
      case NotCalled
      with inv have "callers c t = Calling" by (simp add: race_inv_def)
      with r show ?thesis by simp
    next
      case InProgress
      with inv obtain p where "callers c p = Performing" "\<forall>u. u \<noteq> p \<longrightarrow> callers c u = Calling"
        by (auto simp: race_inv_def)
      then have "callers c t = Performing \<or> callers c t = Calling" by (cases "t = p") auto
      with r show ?thesis by auto
    next
      case Completed
      with inv have "inst c = snd (load do_load (self\<lparr>load_once_flag := NotCalled\<rparr>))"
          "loads_performed c = 1"
          "callers c t = Calling \<or> callers c t = Passed \<or>
           callers c t = Returned (fst (load do_load (self\<lparr>load_once_flag := NotCalled\<rparr>)))"
        by (simp_all add: race_inv_def)
      with r show ?thesis by auto
    qed
  qed
next
  assume "(race_step do_load)\<^sup>*\<^sup>* (race_start self) c"
    and "\<exists>t. \<forall>s. callers c t \<noteq> Returned s"
  then show "\<exists>c'. race_step do_load c c'"
    using race_progress[of do_load self c] race_inv_reachable[of do_load self c] by blast
qed

theorem load_runs_once_witness:
  "(race_step (\<lambda>s. (InternalError ''read failed'', s\<lparr>partial_update_states := []\<rparr>)))\<^sup>*\<^sup>*
      (race_start \<lparr>load_once_flag = NotCalled, load_status = OK, loaded_upserts = ([] :: nat BatchPKs list),
                   partial_update_states = ([] :: nat ColumnPartialUpdateState list)\<rparr>)
      \<lparr>inst = \<lparr>load_once_flag = Completed, load_status = InternalError ''read failed'',
                loaded_upserts = [], partial_update_states = []\<rparr>,
        callers = (\<lambda>t. Calling)(0 := Returned (InternalError ''read failed''),
                                   1 := Returned (InternalError ''read failed'')),
        loads_performed = 1\<rparr> \<and>
   ((\<lambda>t. Calling)(0 := Returned (InternalError ''read failed''),
                    1 := Returned (InternalError ''read failed''))) (1 :: nat)
     = Returned (InternalError ''read failed'') \<and>
   ((\<lambda>t. Calling)(0 := Returned (InternalError ''read failed''),
                    1 := Returned (InternalError ''read failed''))) (2 :: nat) = Calling \<and>
   fst (load (\<lambda>s. (InternalError ''read failed'', s\<lparr>partial_update_states := []\<rparr>))
          \<lparr>load_once_flag = NotCalled, load_status = OK, loaded_upserts = ([] :: nat BatchPKs list),
            partial_update_states = ([] :: nat ColumnPartialUpdateState list)\<rparr>)
     = InternalError ''read failed'' \<and>
   load (\<lambda>s. (InternalError ''read failed'', s\<lparr>partial_update_states := []\<rparr>))
     \<lparr>load_once_flag = Completed, load_status = InternalError ''read failed'',
       loaded_upserts = ([] :: nat BatchPKs list),
       partial_update_states = ([] :: nat ColumnPartialUpdateState list)\<rparr>
     = (InternalError ''read failed'',
        \<lparr>load_once_flag = Completed, load_status = InternalError ''read failed'',
          loaded_upserts = [], partial_update_states = []\<rparr>)"
proof -
  let ?E = "InternalError ''read failed''"
  let ?dl = "\<lambda>s :: (nat, nat) RowsetColumnUpdateState. (?E, s\<lparr>partial_update_states := []\<rparr>)"
  let ?self = "\<lparr>load_once_flag = NotCalled, load_status = OK, loaded_upserts = ([] :: nat BatchPKs list),
                   partial_update_states = ([] :: nat ColumnPartialUpdateState list)\<rparr>"
  let ?done = "\<lparr>load_once_flag = Completed, load_status = ?E, loaded_upserts = ([] :: nat BatchPKs list),
                   partial_update_states = ([] :: nat ColumnPartialUpdateState list)\<rparr>"
  let ?c0 = "race_start ?self"
  let ?c1 = "\<lparr>inst = ?self\<lparr>load_once_flag := InProgress\<rparr>,
              callers = (\<lambda>t :: nat. Calling)(0 := Performing), loads_performed = 0\<rparr>"
  let ?c2 = "\<lparr>inst = ?done, callers = (\<lambda>t :: nat. Calling)(0 := Passed), loads_performed = 1\<rparr>"
  let ?c3 = "\<lparr>inst = ?done, callers = (\<lambda>t :: nat. Calling)(0 := Passed, 1 := Passed),
              loads_performed = 1\<rparr>"
  let ?c4 = "\<lparr>inst = ?done, callers = (\<lambda>t :: nat. Calling)(0 := Returned ?E, 1 := Passed),
              loads_performed = 1\<rparr>"
  let ?c5 = "\<lparr>inst = ?done, callers = (\<lambda>t :: nat. Calling)(0 := Returned ?E, 1 := Returned ?E),
              loads_performed = 1\<rparr>"
  have s1: "race_step ?dl ?c0 ?c1"
    using race_step.enter[of ?c0 0 ?dl] by (simp add: race_start_def)
  have s2: "race_step ?dl ?c1 ?c2"
    using race_step.perform[of ?c1 0 ?dl] by simp
  have s3: "race_step ?dl ?c2 ?c3"
    using race_step.pass[of ?c2 1 ?dl] by simp
  have s4: "race_step ?dl ?c3 ?c4"
    using race_step.return[of ?c3 0 ?dl] by (simp add: fun_upd_twist)
  have s5: "race_step ?dl ?c4 ?c5"
    using race_step.return[of ?c4 1 ?dl] by simp
  have reach: "(race_step ?dl)\<^sup>*\<^sup>* ?c0 ?c5"
    using s1 s2 s3 s4 s5 by (meson rtranclp.rtrancl_into_rtrancl rtranclp.rtrancl_refl)
  have lone: "load ?dl ?self = (?E, ?done)" "load ?dl ?done = (?E, ?done)"
    by (simp_all add: load_def)
  from load_runs_once[of ?dl ?self ?c5] reach
  have "\<forall>t s. callers ?c5 t = Returned s \<longrightarrow>
         loads_performed ?c5 = 1 \<and>
         s = fst (load ?dl (?self\<lparr>load_once_flag := NotCalled\<rparr>)) \<and>
         inst ?c5 = snd (load ?dl (?self\<lparr>load_once_flag := NotCalled\<rparr>))"
    by blast
  moreover have "callers ?c5 1 = Returned ?E" by simp
  ultimately have "fst (load ?dl (?self\<lparr>load_once_flag := NotCalled\<rparr>)) = ?E"
    by metis
  then have "fst (load ?dl ?self) = ?E" by simp
  with reach lone(2) show ?thesis by simp
qed

section \<open>Loading key batches\<close>

lemma batch_open_new: "batch_open idx (new_batch idx)"
  by (simp add: batch_open_def new_batch_def)

lemma batch_open_add:
  assumes "batch_open idx b"
  shows "batch_open (Suc idx) (add_segment keys b)"
proof -
  from assms obtain s where s: "start_idx b = of_nat s" "end_idx b = of_nat idx"
      "s + length (offsets b) = idx" "sorted (offsets b)"
      "\<forall>x \<in> set (offsets b). x \<le> length (upserts b)"
    unfolding batch_open_def by blast
  have "sorted (offsets b @ [length (upserts b)])"
    using s(4,5) by (simp add: sorted_append)
  moreover have "\<forall>x \<in> set (offsets b @ [length (upserts b)]). x \<le> length (upserts b @ keys)"
    using s(5) by auto
  ultimately show ?thesis
    unfolding batch_open_def add_segment_def using s(1,2,3)
    by (intro exI[of _ s]) simp
qed

lemma batch_closed_close:
  assumes "batch_open idx b" and "offsets b \<noteq> []" and "idx \<le> bound"
  shows "batch_closed bound (close_batch b)"
proof -
  from assms(1) obtain s where s: "start_idx b = of_nat s" "end_idx b = of_nat idx"
      "s + length (offsets b) = idx" "sorted (offsets b)"
      "\<forall>x \<in> set (offsets b). x \<le> length (upserts b)"
    unfolding batch_open_def by blast
  have "sorted (offsets b @ [length (upserts b)])"
    using s(4,5) by (simp add: sorted_append)
  then show ?thesis
    unfolding batch_closed_def close_batch_def using s(1,2,3) assms(3)
    by (intro exI[of _ s] exI[of _ "length (offsets b)"]) simp
qed

lemma load_segments_closed:
  assumes "load_segments key_size memory_budget segments idx cur batches = Inr result"
    and "batch_open idx cur" and "\<forall>b \<in> set batches. batch_closed bound b"
    and "idx + length segments \<le> bound"
  shows "\<forall>b \<in> set result. batch_closed bound b"
  using assms
proof (induction segments arbitrary: idx cur batches)
  case Nil
  then show ?case
    by (auto simp: batch_closed_close split: if_splits)
next
  case (Cons segment rest)
  from Cons.prems(1) obtain keys where keys: "segment = Inr keys"
    by (cases segment) auto
  show ?case
  proof (cases "offsets cur \<noteq> [] \<and> \<not> stays_under key_size memory_budget (upserts cur @ keys)")
    case True
    with Cons.prems(1) keys
    have run: "load_segments key_size memory_budget rest (Suc idx)
                 (add_segment keys (new_batch idx)) (batches @ [close_batch cur]) = Inr result"
      by simp
    have "batch_closed bound (close_batch cur)"
      using Cons.prems(2,4) True by (intro batch_closed_close[of idx]) simp_all
    with Cons.prems(3) have closed: "\<forall>b \<in> set (batches @ [close_batch cur]). batch_closed bound b"
      by simp
    have "batch_open (Suc idx) (add_segment keys (new_batch idx))"
      by (intro batch_open_add batch_open_new)
    from Cons.IH[OF run this closed] Cons.prems(4) show ?thesis by simp
  next
    case False
    with Cons.prems(1) keys
    have run: "load_segments key_size memory_budget rest (Suc idx) (add_segment keys cur) batches
                 = Inr result"
      by auto
    from Cons.IH[OF run batch_open_add[OF Cons.prems(2)] Cons.prems(3)] Cons.prems(4)
    show ?thesis by simp
  qed
qed

lemma load_segments_reads:
  assumes "\<forall>segment \<in> set segments. \<exists>keys. segment = Inr keys"
  shows "\<exists>result. load_segments key_size memory_budget segments idx cur batches = Inr result"
  using assms
proof (induction segments arbitrary: idx cur batches)
  case Nil
  then show ?case by simp
next
  case (Cons segment rest)
  then obtain keys where "segment = Inr keys" by auto
  with Cons show ?case by simp
qed

lemma unat_of_nat_diff32:
  assumes "s + m < 2 ^ 32"
  shows "unat ((of_nat (s + m) :: uint32_t) - of_nat s) = m"
proof -
  have "(of_nat (s + m) :: uint32_t) - of_nat s = of_nat m" by simp
  moreover from assms have "m < 2 ^ 32" by simp
  ultimately show ?thesis by (simp add: unat_of_nat32)
qed

lemma batch_closed_props:
  assumes "batch_closed bound b" and "bound < 2 ^ 32"
  shows "length (offsets b) = unat (end_idx b - start_idx b) + 1"
    and "sorted (offsets b)"
    and "last (offsets b) = length (upserts b)"
proof -
  from assms(1) obtain s m where sm: "start_idx b = of_nat s" "end_idx b = of_nat (s + m)"
      "s + m \<le> bound" "length (offsets b) = m + 1" "sorted (offsets b)"
      "last (offsets b) = length (upserts b)"
    unfolding batch_closed_def by blast
  from sm(3) assms(2) have "unat (end_idx b - start_idx b) = m"
    unfolding sm(1,2) by (intro unat_of_nat_diff32) simp
  with sm(4) show "length (offsets b) = unat (end_idx b - start_idx b) + 1" by simp
  show "sorted (offsets b)" by (rule sm(5))
  show "last (offsets b) = length (upserts b)" by (rule sm(6))
qed

lemma split_dcheck_in_range:
  assumes len: "length (offsets b) = unat (end_idx b - start_idx b) + 1"
    and lo: "start_idx b \<le> idx" and hi: "idx < end_idx b"
  shows "split_dcheck b idx"
proof -
  from lo hi have se: "start_idx b \<le> end_idx b" by simp
  have d1: "unat (idx - start_idx b) = unat idx - unat (start_idx b)"
    using lo by (simp add: unat_sub)
  have d2: "unat (end_idx b - start_idx b) = unat (end_idx b) - unat (start_idx b)"
    using se by (simp add: unat_sub)
  from lo hi have "unat (start_idx b) \<le> unat idx" "unat idx < unat (end_idx b)"
    by (simp_all add: word_le_nat_alt word_less_nat_alt)
  with d1 d2 have lt: "unat (idx - start_idx b) < unat (end_idx b - start_idx b)" by simp
  have "unat (idx - start_idx b + 1) \<le> unat (idx - start_idx b) + 1"
    by (cases "idx - start_idx b + 1 = 0") (simp_all add: unat_plus1)
  with lt len show ?thesis by (simp add: split_dcheck_def)
qed

text \<open>
  Claim C5. A load whose segments can all be read succeeds, and every \<^verbatim>\<open>BatchPKs\<close> that a
  successful load of fewer than \<open>2 ^ 32\<close> segments produces has exactly
  \<^verbatim>\<open>(end_idx - start_idx) + 1\<close> offsets, in non-decreasing order, the last of which is the
  length of \<^verbatim>\<open>upserts\<close> and of \<^verbatim>\<open>src_rss_rowids\<close> once probed; so the \<^verbatim>\<open>DCHECK\<close> of
  \<^verbatim>\<open>split_src_rss_rowids\<close> holds for every segment index of the batch.
\<close>

theorem loaded_batches_well_formed:
  "((\<forall>segment \<in> set segments. \<exists>keys. segment = Inr keys) \<longrightarrow>
      (\<exists>batches. load_upserts key_size memory_budget segments index = Inr batches)) \<and>
   (length segments < 2 ^ 32 \<and>
    load_upserts key_size memory_budget segments index = Inr batches \<longrightarrow>
      (\<forall>b \<in> set batches.
         length (offsets b) = unat (end_idx b - start_idx b) + 1 \<and>
         sorted (offsets b) \<and>
         last (offsets b) = length (upserts b) \<and>
         last (offsets b) = length (batch_src_rss_rowids b) \<and>
         (\<forall>idx. start_idx b \<le> idx \<and> idx < end_idx b \<longrightarrow> split_dcheck b idx)))"
proof (intro conjI impI)
  assume "\<forall>segment \<in> set segments. \<exists>keys. segment = Inr keys"
  from load_segments_reads[OF this, of key_size memory_budget 0 "new_batch 0" "[]"]
  show "\<exists>batches. load_upserts key_size memory_budget segments index = Inr batches"
    by (auto simp: load_upserts_def)
next
  assume a: "length segments < 2 ^ 32 \<and>
    load_upserts key_size memory_budget segments index = Inr batches"
  then obtain raw where raw:
      "load_segments key_size memory_budget segments 0 (new_batch 0) [] = Inr raw"
      "batches = map (probe_batch index) raw"
    by (auto simp: load_upserts_def split: sum.splits)
  have closed: "\<forall>b \<in> set raw. batch_closed (length segments) b"
    by (rule load_segments_closed[OF raw(1) batch_open_new]) simp_all
  show "\<forall>b \<in> set batches.
         length (offsets b) = unat (end_idx b - start_idx b) + 1 \<and>
         sorted (offsets b) \<and>
         last (offsets b) = length (upserts b) \<and>
         last (offsets b) = length (batch_src_rss_rowids b) \<and>
         (\<forall>idx. start_idx b \<le> idx \<and> idx < end_idx b \<longrightarrow> split_dcheck b idx)"
  proof
    fix b assume "b \<in> set batches"
    with raw(2) obtain r where r: "r \<in> set raw" "b = probe_batch index r" by auto
    from closed r(1) have c: "batch_closed (length segments) r" by blast
    from a have bound: "length segments < 2 ^ 32" by simp
    note p = batch_closed_props[OF c bound]
    have same: "offsets b = offsets r" "upserts b = upserts r" "start_idx b = start_idx r"
        "end_idx b = end_idx r" "length (batch_src_rss_rowids b) = length (upserts r)"
      by (simp_all add: r(2) probe_batch_def)
    have len: "length (offsets b) = unat (end_idx b - start_idx b) + 1"
      using p(1) same by simp
    have "\<forall>idx. start_idx b \<le> idx \<and> idx < end_idx b \<longrightarrow> split_dcheck b idx"
      using split_dcheck_in_range[OF len] by blast
    with len p(2,3) same
    show "length (offsets b) = unat (end_idx b - start_idx b) + 1 \<and>
         sorted (offsets b) \<and>
         last (offsets b) = length (upserts b) \<and>
         last (offsets b) = length (batch_src_rss_rowids b) \<and>
         (\<forall>idx. start_idx b \<le> idx \<and> idx < end_idx b \<longrightarrow> split_dcheck b idx)"
      by simp
  qed
qed

theorem loaded_batches_well_formed_witness:
  "length [Inr [1, 2], Inr [3], Inr [4, 5, 6 :: nat] :: (Status + nat list)] < 2 ^ 32 \<and>
   load_upserts (\<lambda>k. 1) 4 [Inr [1, 2], Inr [3], Inr [4, 5, 6 :: nat]] of_nat
     = Inr [\<lparr>upserts = [1, 2, 3], start_idx = 0, end_idx = 2,
              batch_src_rss_rowids = [1, 2, 3], offsets = [0, 2, 3]\<rparr>,
            \<lparr>upserts = [4, 5, 6], start_idx = 2, end_idx = 3,
              batch_src_rss_rowids = [4, 5, 6], offsets = [0, 3]\<rparr>] \<and>
   length [0, 2, 3 :: nat] = unat ((2 :: uint32_t) - 0) + 1 \<and>
   sorted [0, 2, 3 :: nat] \<and> last [0, 2, 3 :: nat] = length [1, 2, 3 :: nat] \<and>
   (0 :: uint32_t) \<le> 1 \<and> (1 :: uint32_t) < 2 \<and>
   split_dcheck \<lparr>upserts = [1, 2, 3 :: nat], start_idx = 0, end_idx = 2,
                  batch_src_rss_rowids = [1, 2, 3], offsets = [0, 2, 3]\<rparr> 1 \<and>
   split_src_rss_rowids \<lparr>upserts = [1, 2, 3 :: nat], start_idx = 0, end_idx = 2,
                  batch_src_rss_rowids = [1, 2, 3], offsets = [0, 2, 3]\<rparr> 1 [] = [3]"
proof -
  let ?segments = "[Inr [1, 2], Inr [3], Inr [4, 5, 6 :: nat]] :: (Status + nat list) list"
  let ?b0 = "\<lparr>upserts = [1, 2, 3 :: nat], start_idx = 0, end_idx = 2,
              batch_src_rss_rowids = [1, 2, 3], offsets = [0, 2, 3]\<rparr>"
  let ?b1 = "\<lparr>upserts = [4, 5, 6 :: nat], start_idx = 2, end_idx = 3,
              batch_src_rss_rowids = [4, 5, 6], offsets = [0, 3]\<rparr>"
  have run: "load_upserts (\<lambda>k. 1) 4 ?segments of_nat = Inr [?b0, ?b1]"
    by (simp add: load_upserts_def new_batch_def add_segment_def close_batch_def
          stays_under_def probe_batch_def)
  have small: "length ?segments < 2 ^ 32" by simp
  from loaded_batches_well_formed[of ?segments "\<lambda>k. 1" 4 of_nat "[?b0, ?b1]"] small run
  have "\<forall>b \<in> set [?b0, ?b1].
         length (offsets b) = unat (end_idx b - start_idx b) + 1 \<and>
         sorted (offsets b) \<and>
         last (offsets b) = length (upserts b) \<and>
         last (offsets b) = length (batch_src_rss_rowids b) \<and>
         (\<forall>idx. start_idx b \<le> idx \<and> idx < end_idx b \<longrightarrow> split_dcheck b idx)"
    by blast
  then have b0: "length (offsets ?b0) = unat (end_idx ?b0 - start_idx ?b0) + 1"
      "sorted (offsets ?b0)" "last (offsets ?b0) = length (upserts ?b0)"
      "\<forall>idx. start_idx ?b0 \<le> idx \<and> idx < end_idx ?b0 \<longrightarrow> split_dcheck ?b0 idx"
    by simp_all
  have range: "(0 :: uint32_t) \<le> 1" "(1 :: uint32_t) < 2" by simp_all
  with b0(4) have chk: "split_dcheck ?b0 1" by simp
  have cut: "split_src_rss_rowids ?b0 1 [] = [3]"
    by (simp add: split_src_rss_rowids_def)
  from b0(1,2,3) have "length [0, 2, 3 :: nat] = unat ((2 :: uint32_t) - 0) + 1"
      "sorted [0, 2, 3 :: nat]" "last [0, 2, 3 :: nat] = length [1, 2, 3 :: nat]"
    by simp_all
  with small run range chk cut show ?thesis by (intro conjI)
qed

section \<open>Conflict resolution\<close>

text \<open>
  Claim C6. If the version recorded at load time in the per-segment states equals the
  \<^verbatim>\<open>latest_applied_version\<close>, conflict resolution succeeds without a single probe and
  hands back every \<^verbatim>\<open>ColumnPartialUpdateState\<close> as it was, with its \<^verbatim>\<open>src_rss_rowids\<close>,
  \<^verbatim>\<open>rss_rowid_to_update_rowid\<close> and \<^verbatim>\<open>insert_rowids\<close>.
\<close>

theorem equal_version_resolves_nothing:
  "list_all (\<lambda>st. read_version st = latest_applied_version) states \<longrightarrow>
     check_and_resolve_conflict index latest_applied_version segment_keys states
       = Some \<lparr>res_status = OK, res_states = states, res_probes = 0\<rparr>"
  by (simp add: check_and_resolve_conflict_def)

theorem equal_version_resolves_nothing_witness:
  "list_all (\<lambda>st. read_version st = (7 :: nat))
     [\<lparr>inited = True, src_rss_rowids = [5, UINT64_MAX], read_version = 7,
       rss_rowid_to_update_rowid = [5 \<mapsto> 0], insert_rowids = [1]\<rparr>] \<and>
   check_and_resolve_conflict (\<lambda>k :: nat. Inr 9) (7 :: nat) [[10, 11]]
     [\<lparr>inited = True, src_rss_rowids = [5, UINT64_MAX], read_version = 7,
       rss_rowid_to_update_rowid = [5 \<mapsto> 0], insert_rowids = [1]\<rparr>]
    = Some \<lparr>res_status = OK,
            res_states = [\<lparr>inited = True, src_rss_rowids = [5, UINT64_MAX], read_version = 7,
                           rss_rowid_to_update_rowid = [5 \<mapsto> 0], insert_rowids = [1]\<rparr>],
            res_probes = 0\<rparr> \<and>
   check_and_resolve_conflict (\<lambda>k :: nat. Inr 9) (8 :: nat) [[10, 11]]
     [\<lparr>inited = True, src_rss_rowids = [5, UINT64_MAX], read_version = 7,
       rss_rowid_to_update_rowid = [5 \<mapsto> 0], insert_rowids = [1]\<rparr>]
    = Some \<lparr>res_status = OK,
            res_states = [\<lparr>inited = True, src_rss_rowids = [9, 9], read_version = 8,
                           rss_rowid_to_update_rowid = [9 \<mapsto> 1], insert_rowids = []\<rparr>],
            res_probes = 2\<rparr>"
proof -
  let ?st = "\<lparr>inited = True, src_rss_rowids = [5, UINT64_MAX], read_version = (7 :: nat),
       rss_rowid_to_update_rowid = [5 \<mapsto> 0], insert_rowids = [1]\<rparr>"
  have same: "list_all (\<lambda>st. read_version st = (7 :: nat)) [?st]" by simp
  from equal_version_resolves_nothing[of 7 "[?st]" "\<lambda>k :: nat. Inr 9" "[[10, 11]]"] same
  have fast: "check_and_resolve_conflict (\<lambda>k :: nat. Inr 9) (7 :: nat) [[10, 11]] [?st]
                = Some \<lparr>res_status = OK, res_states = [?st], res_probes = 0\<rparr>"
    by blast
  have slow: "check_and_resolve_conflict (\<lambda>k :: nat. Inr 9) (8 :: nat) [[10, 11]] [?st]
    = Some \<lparr>res_status = OK,
            res_states = [\<lparr>inited = True, src_rss_rowids = [9, 9], read_version = 8,
                           rss_rowid_to_update_rowid = [9 \<mapsto> 1], insert_rowids = []\<rparr>],
            res_probes = 2\<rparr>"
    by (simp add: check_and_resolve_conflict_def build_rss_rowid_to_update_rowid_def
          build_loop.simps build_body_def UINT64_MAX_def)
  from same fast slow show ?thesis by (intro conjI)
qed

end
